theory Spec2Isabelle
  imports Complex_Main "HOL-Library.Word"
begin

section \<open>JavaScript values\<close>

text \<open>
  A JavaScript string is a sequence of 16-bit code units; \<open>length\<close>, indexing,
  \<open>slice\<close> and \<open>includes\<close> count code units. \<open>lit\<close> embeds an ASCII literal
  of the source.
\<close>

type_synonym jschar = "16 word"
type_synonym jsstring = "jschar list"

definition lit :: "string \<Rightarrow> jsstring" where
  "lit s = map of_char s"

text \<open>
  \<open>String.prototype.slice(start, end)\<close> on integer arguments: a negative index counts
  from the end, both are clamped to the string, and the result is empty unless
  \<open>from < to\<close>. \<open>js_slice_from\<close> is the call with \<open>end\<close> left out.
\<close>

definition js_slice :: "'a list \<Rightarrow> int \<Rightarrow> int \<Rightarrow> 'a list" where
  "js_slice s a b =
     (let n = int (length s);
          from = (if a < 0 then max (n + a) 0 else min a n);
          to = (if b < 0 then max (n + b) 0 else min b n)
      in if from < to then take (nat (to - from)) (drop (nat from) s) else [])"

definition js_slice_from :: "'a list \<Rightarrow> int \<Rightarrow> 'a list" where
  "js_slice_from s a = js_slice s a (int (length s))"

text \<open>\<open>String.prototype.includes\<close>.\<close>

fun js_includes :: "'a list \<Rightarrow> 'a list \<Rightarrow> bool" where
  "js_includes [] sub = (sub = [])"
| "js_includes (c # cs) sub = (take (length sub) (c # cs) = sub \<or> js_includes cs sub)"

text \<open>
  \<open>String.prototype.trim\<close> removes white space and line terminators from both ends.
\<close>

definition isWhiteSpace :: "jschar \<Rightarrow> bool" where
  "isWhiteSpace c \<longleftrightarrow>
     c \<in> {0x09, 0x0A, 0x0B, 0x0C, 0x0D, 0x20, 0xA0, 0x1680, 0x2028, 0x2029, 0x202F,
          0x205F, 0x3000, 0xFEFF} \<or> (0x2000 \<le> c \<and> c \<le> 0x200A)"

definition trim :: "jsstring \<Rightarrow> jsstring" where
  "trim s = rev (dropWhile isWhiteSpace (rev (dropWhile isWhiteSpace s)))"

record js_error =
  message :: "jsstring option"
  status :: "int option"

text \<open>\<open>new Error(msg)\<close>: a message and no \<open>status\<close> property.\<close>

definition Error :: "string \<Rightarrow> js_error" where
  "Error msg = \<lparr> message = Some (lit msg), status = None \<rparr>"

section \<open>types.ts\<close>

record Annotation =
  original_span :: jsstring
  corrected_span :: jsstring
  start_index :: int
  end_index :: int
  error_code :: jsstring
  macro_code :: jsstring
  explanation :: jsstring

record AnalysisResult =
  original_text :: jsstring
  corrected_text :: jsstring
  annotations :: "Annotation list"

section \<open>components/BatchProcessor.tsx: parseCSV\<close>

text \<open>The characters the parser tests for: the double quote, line feed and carriage return.\<close>

definition DQUOTE :: jschar where "DQUOTE = 0x22"
definition LF :: jschar where "LF = 0x0A"
definition CR :: jschar where "CR = 0x0D"

text \<open>\<open>text.replace(/\r\n/g, '\n')\<close>, then \<open>.replace(/\r/g, '\n')\<close>.\<close>

fun replace_crlf :: "jsstring \<Rightarrow> jsstring" where
  "replace_crlf (c # d # cs) =
     (if c = CR \<and> d = LF then LF # replace_crlf cs else c # replace_crlf (d # cs))"
| "replace_crlf cs = cs"

definition replace_cr :: "jsstring \<Rightarrow> jsstring" where
  "replace_cr s = map (\<lambda>c. if c = CR then LF else c) s"

definition normalized :: "jsstring \<Rightarrow> jsstring" where
  "normalized text = replace_cr (replace_crlf text)"

text \<open>\<open>if (current.trim()) results.push(current.trim())\<close>: the empty string is falsy.\<close>

definition push_trimmed :: "jsstring \<Rightarrow> jsstring list \<Rightarrow> jsstring list" where
  "push_trimmed cur results = (if trim cur \<noteq> [] then results @ [trim cur] else results)"

text \<open>
  The \<open>for\<close> loop of \<open>parseCSV\<close> over the rest of the normalized text, with the
  variables \<open>inQuote\<close>, \<open>current\<close> and \<open>results\<close>. Looking at \<open>normalized[i + 1]\<close>
  and skipping it with \<open>i++\<close> is the match on the second character.
\<close>

fun scan :: "jsstring \<Rightarrow> bool \<Rightarrow> jsstring \<Rightarrow> jsstring list \<Rightarrow> jsstring list" where
  "scan [] inQuote cur results = push_trimmed cur results"
| "scan (c # cs) True cur results =
     (if c = DQUOTE then
        (case cs of
           d # ds \<Rightarrow> if d = DQUOTE then scan ds True (cur @ [DQUOTE]) results
                     else scan cs False cur results
         | [] \<Rightarrow> scan cs False cur results)
      else scan cs True (cur @ [c]) results)"
| "scan (c # cs) False cur results =
     (if c = DQUOTE then scan cs True cur results
      else if c = LF then scan cs False [] (push_trimmed cur results)
      else scan cs False (cur @ [c]) results)"

definition parseCSV :: "jsstring \<Rightarrow> jsstring list" where
  "parseCSV text = scan (normalized text) False [] []"

section \<open>components/AnnotationView.tsx: renderText\<close>

text \<open>
  The elements \<open>renderText\<close> returns: a plain \<open>span\<close> with key \<open>text-idx\<close>, a
  highlighted \<open>span\<close> with key \<open>ann-idx\<close> for an annotation, and the closing plain
  \<open>span\<close> with key \<open>text-end\<close>; each with the string it shows.
\<close>

datatype segment =
  TextSpan nat jsstring
| AnnSpan nat Annotation jsstring
| TextEnd jsstring

fun segment_text :: "segment \<Rightarrow> jsstring" where
  "segment_text (TextSpan idx t) = t"
| "segment_text (AnnSpan idx ann t) = t"
| "segment_text (TextEnd t) = t"

text \<open>
  \<open>[...annotations].sort((a, b) => a.start_index - b.start_index)\<close>: a stable sort by
  \<open>start_index\<close>.
\<close>

definition sortedAnnotations :: "Annotation list \<Rightarrow> Annotation list" where
  "sortedAnnotations anns = sort_key start_index anns"

text \<open>
  The \<open>forEach\<close> over the sorted annotations, with the variables \<open>lastIndex\<close> and
  \<open>elements\<close>, then the rest of \<open>renderText\<close>.
\<close>

fun render_each :: "jsstring \<Rightarrow> Annotation list \<Rightarrow> nat \<Rightarrow> int \<Rightarrow> segment list \<Rightarrow> segment list \<times> int" where
  "render_each originalText [] idx lastIndex elements = (elements, lastIndex)"
| "render_each originalText (ann # anns) idx lastIndex elements =
     (let elements1 =
            (if start_index ann > lastIndex
             then elements @ [TextSpan idx (js_slice originalText lastIndex (start_index ann))]
             else elements);
          errorText = js_slice originalText (start_index ann) (end_index ann);
          elements2 = elements1 @ [AnnSpan idx ann errorText]
      in render_each originalText anns (Suc idx) (end_index ann) elements2)"

definition renderText :: "jsstring \<Rightarrow> Annotation list \<Rightarrow> segment list" where
  "renderText originalText anns =
     (let (elements, lastIndex) =
            render_each originalText (sortedAnnotations anns) 0 0 []
      in if lastIndex < int (length originalText)
         then elements @ [TextEnd (js_slice_from originalText lastIndex)]
         else elements)"

section \<open>services/supabaseClient.ts: saveRecord\<close>

text \<open>
  What the awaited \<open>supabase.from(..).insert(..).select()\<close> can do: reject (the await
  throws), or resolve to an object with a \<open>data\<close> and an \<open>error\<close> property.
  The inserted rows are kept abstract (\<open>'d\<close>).
\<close>

datatype 'd insert_outcome =
  InsertRejects js_error
| InsertResolves 'd "js_error option"

text \<open>
  The body of the \<open>try\<close> block: \<open>Inl\<close> is a throw inside it. The row sent to the
  table carries \<open>error_count = record.annotations.length\<close>.
\<close>

record db_row =
  row_original_text :: jsstring
  row_corrected_text :: jsstring
  row_analysis_json :: "Annotation list"
  row_error_count :: nat

definition row_of :: "AnalysisResult \<Rightarrow> db_row" where
  "row_of r = \<lparr> row_original_text = original_text r,
               row_corrected_text = corrected_text r,
               row_analysis_json = annotations r,
               row_error_count = length (annotations r) \<rparr>"

definition saveRecord_try :: "'d insert_outcome \<Rightarrow> js_error + 'd" where
  "saveRecord_try io =
     (case io of
        InsertRejects e \<Rightarrow> Inl e
      | InsertResolves d (Some e) \<Rightarrow> Inl e
      | InsertResolves d None \<Rightarrow> Inr d)"

text \<open>
  \<open>saveRecord\<close>: \<open>Inl\<close> would be an exception reaching the caller, \<open>Inr None\<close> is
  the returned \<open>null\<close>, \<open>Inr (Some d)\<close> the returned data.
\<close>

definition saveRecord :: "AnalysisResult \<Rightarrow> 'd insert_outcome \<Rightarrow> js_error + 'd option" where
  "saveRecord r io =
     (case saveRecord_try io of
        Inl err \<Rightarrow> Inr None
      | Inr d \<Rightarrow> Inr (Some d))"

section \<open>The classifier client with retries: analyzeText over the Gemini SDK\<close>

text \<open>
  This \<open>analyzeText\<close> creates the \<open>GoogleGenAI\<close> client itself and calls the model
  in a \<open>while\<close> loop. The two tests of its \<open>catch\<close> block:
  \<open>error.message?.includes('429') || error.status === 429\<close>, and the same with 503.
\<close>

definition isRateLimit :: "js_error \<Rightarrow> bool" where
  "isRateLimit err \<longleftrightarrow>
     (case message err of None \<Rightarrow> False | Some m \<Rightarrow> js_includes m (lit ''429'')) \<or>
     status err = Some 429"

definition isServerOverload :: "js_error \<Rightarrow> bool" where
  "isServerOverload err \<longleftrightarrow>
     (case message err of None \<Rightarrow> False | Some m \<Rightarrow> js_includes m (lit ''503'')) \<or>
     status err = Some 503"

text \<open>
  What \<open>JSON.parse\<close> gives, read as the code reads it: the object spread after
  \<open>original_text: text\<close>, so an \<open>original_text\<close> property of the response would
  replace the input text.
\<close>

record parsed =
  parsed_original_text :: "jsstring option"
  parsed_corrected_text :: jsstring
  parsed_annotations :: "Annotation list"

definition spread_result :: "jsstring \<Rightarrow> parsed \<Rightarrow> AnalysisResult" where
  "spread_result inp p =
     \<lparr> original_text = (case parsed_original_text p of None \<Rightarrow> inp | Some t \<Rightarrow> t),
       corrected_text = parsed_corrected_text p,
       annotations = parsed_annotations p \<rparr>"

text \<open>
  The world around one call of \<open>analyzeText\<close>: whether \<open>process.env.API_KEY\<close> is
  set, what the \<open>k\<close>-th call of \<open>ai.models.generateContent\<close> does (throw, or a
  response with its \<open>text\<close>), \<open>JSON.parse\<close>, the successive values of
  \<open>Math.random()\<close>, and \<open>to_number\<close>, the rounding of a real result to a value of
  type Number (binary64): the source computes with Numbers, so each product and sum is
  rounded.
\<close>

record gemini_env =
  API_KEY :: bool
  generateContent :: "nat \<Rightarrow> jsstring \<Rightarrow> js_error + jsstring option"
  JSON_parse :: "jsstring \<Rightarrow> js_error + parsed"
  Math_random :: "nat \<Rightarrow> real"
  to_number :: "real \<Rightarrow> real"

definition number_times :: "gemini_env \<Rightarrow> real \<Rightarrow> real \<Rightarrow> real" where
  "number_times env x y = to_number env (x * y)"

definition number_plus :: "gemini_env \<Rightarrow> real \<Rightarrow> real \<Rightarrow> real" where
  "number_plus env x y = to_number env (x + y)"

text \<open>The body of the \<open>try\<close> block on the \<open>k\<close>-th underlying call.\<close>

definition attempt :: "gemini_env \<Rightarrow> jsstring \<Rightarrow> nat \<Rightarrow> js_error + AnalysisResult" where
  "attempt env inp k =
     (case generateContent env k inp of
        Inl err \<Rightarrow> Inl err
      | Inr jsonText \<Rightarrow>
          (case jsonText of
             None \<Rightarrow> Inl (Error ''Empty response from AI'')
           | Some j \<Rightarrow>
               if j = [] then Inl (Error ''Empty response from AI'')
               else (case JSON_parse env j of
                       Inl err \<Rightarrow> Inl err
                     | Inr result \<Rightarrow> Inr (spread_result inp result))))"

definition maxRetries :: nat where
  "maxRetries = 5"

definition baseDelay :: real where
  "baseDelay = 2000"

text \<open>
  \<open>baseDelay * Math.pow(2, retries) + Math.random() * 1000\<close>, with the value of
  \<open>retries\<close> after its increment and the \<open>draw\<close>-th value of \<open>Math.random()\<close>.
  The power of two is exact.
\<close>

definition waitTime :: "gemini_env \<Rightarrow> nat \<Rightarrow> nat \<Rightarrow> real" where
  "waitTime env retries draw =
     number_plus env (number_times env baseDelay (2 ^ retries))
       (number_times env (Math_random env draw) 1000)"

text \<open>
  The result of a call, with what it did on the way: the number of underlying calls and
  the delays it waited, in milliseconds.
\<close>

record retry_run =
  outcome :: "js_error + AnalysisResult"
  underlying_calls :: nat
  wait_times :: "real list"

function analyzeText_loop ::
  "gemini_env \<Rightarrow> jsstring \<Rightarrow> nat \<Rightarrow> nat \<Rightarrow> real list \<Rightarrow> retry_run" where
  "analyzeText_loop env inp retries n ws =
     (if retries < maxRetries then
        (case attempt env inp n of
           Inr result \<Rightarrow> \<lparr> outcome = Inr result, underlying_calls = n + 1, wait_times = ws \<rparr>
         | Inl err \<Rightarrow>
             if (isRateLimit err \<or> isServerOverload err) \<and> retries < maxRetries then
               analyzeText_loop env inp (retries + 1) (n + 1)
                 (ws @ [waitTime env (retries + 1) (length ws)])
             else \<lparr> outcome = Inl err, underlying_calls = n + 1, wait_times = ws \<rparr>)
      else \<lparr> outcome = Inl (Error ''Max retries exceeded for Gemini API''),
             underlying_calls = n, wait_times = ws \<rparr>)"
  by pat_completeness auto
termination
  by (relation "measure (\<lambda>(env, inp, retries, n, ws). maxRetries - retries)") auto

declare analyzeText_loop.simps [simp del]

definition analyzeText :: "gemini_env \<Rightarrow> jsstring \<Rightarrow> retry_run" where
  "analyzeText env inp =
     (if \<not> API_KEY env
      then \<lparr> outcome = Inl (Error ''API Key is missing''), underlying_calls = 0, wait_times = [] \<rparr>
      else analyzeText_loop env inp 0 0 [])"

section \<open>services/geminiService.ts: analyzeText over fetch\<close>

text \<open>
  The world around one call: the configured base URL (\<open>''\<close> when there is none), what
  the one \<open>fetch\<close> does, and the JSON readers: \<open>error_field\<close> is
  \<open>JSON.parse(errorText)?.error\<close> when that parses and is truthy,
  \<open>response_json\<close> is \<open>response.json()\<close>, \<open>request_failed\<close> builds
  \<open>`Request failed (${response.status})`\<close>.
\<close>

record http_response =
  ok :: bool
  http_status :: int
  body :: jsstring

record fetch_env =
  apiBaseUrl :: jsstring
  fetch :: "jsstring \<Rightarrow> js_error + http_response"
  error_field :: "jsstring \<Rightarrow> jsstring option"
  response_json :: "jsstring \<Rightarrow> js_error + parsed"
  request_failed :: "int \<Rightarrow> jsstring"

record fetch_run =
  fetch_outcome :: "js_error + AnalysisResult"
  requests :: nat

definition failure_message :: "fetch_env \<Rightarrow> http_response \<Rightarrow> jsstring" where
  "failure_message env response =
     (let errorText = body response;
          msg = (case error_field env errorText of Some e \<Rightarrow> e | None \<Rightarrow> errorText)
      in if msg \<noteq> [] then msg else request_failed env (http_status response))"

definition analyzeText_fetch :: "fetch_env \<Rightarrow> jsstring \<Rightarrow> fetch_run" where
  "analyzeText_fetch env inp =
     (if apiBaseUrl env = []
      then \<lparr> fetch_outcome = Inl (Error ''API URL is missing''), requests = 0 \<rparr>
      else case fetch env inp of
             Inl err \<Rightarrow> \<lparr> fetch_outcome = Inl err, requests = 1 \<rparr>
           | Inr response \<Rightarrow>
               if \<not> ok response
               then \<lparr> fetch_outcome =
                        Inl \<lparr> message = Some (failure_message env response), status = None \<rparr>,
                      requests = 1 \<rparr>
               else (case response_json env (body response) of
                       Inl err \<Rightarrow> \<lparr> fetch_outcome = Inl err, requests = 1 \<rparr>
                     | Inr result \<Rightarrow>
                         \<lparr> fetch_outcome = Inr (spread_result inp result), requests = 1 \<rparr>))"

section \<open>components/BatchProcessor.tsx: the dispatch loop\<close>

record progress_t =
  current :: nat
  total :: nat
  success :: nat
  failed :: nat

text \<open>
  The component's React state and refs, together with three logs of what the loop did to
  its collaborators: the texts passed to \<open>analyzeText\<close>, the results passed to
  \<open>saveRecord\<close>, and the number of \<open>onComplete\<close> calls.
\<close>

record bp_state =
  isProcessing :: bool
  isPaused :: bool
  progress :: progress_t
  displayResults :: "AnalysisResult list"
  batchAnnotations :: "Annotation list"
  latestResult :: "AnalysisResult option"
  stopRef :: bool
  pauseRef :: bool
  classified :: "jsstring list"
  saved :: "AnalysisResult list"
  completed :: nat

text \<open>The values the component starts with (\<open>useState\<close>, \<open>useRef\<close>).\<close>

definition initial_state :: bp_state where
  "initial_state = \<lparr> isProcessing = False, isPaused = False,
     progress = \<lparr> current = 0, total = 0, success = 0, failed = 0 \<rparr>,
     displayResults = [], batchAnnotations = [], latestResult = None,
     stopRef = False, pauseRef = False, classified = [], saved = [], completed = 0 \<rparr>"

text \<open>
  The operator's two controls. Both buttons are rendered only while \<open>isProcessing\<close>
  holds. \<open>togglePause\<close> flips \<open>isPaused\<close>, and the effect on \<open>[isPaused]\<close> copies the
  new value into \<open>pauseRef\<close>; \<open>Stop\<close> is a confirmed \<open>handleStop\<close>.
\<close>

datatype action = TogglePause | Stop

definition togglePause :: "bp_state \<Rightarrow> bp_state" where
  "togglePause s = s\<lparr> isPaused := \<not> isPaused s, pauseRef := \<not> isPaused s \<rparr>"

definition handleStop :: "bp_state \<Rightarrow> bp_state" where
  "handleStop s = s\<lparr> stopRef := True, isProcessing := False \<rparr>"

fun click :: "action \<Rightarrow> bp_state \<Rightarrow> bp_state" where
  "click TogglePause s = (if isProcessing s then togglePause s else s)"
| "click Stop s = (if isProcessing s then handleStop s else s)"

text \<open>
  The loop is single-threaded: the operator's clicks take effect only while it is
  suspended in an \<open>await\<close>. A tick is the list of clicks handled during one
  suspension; the schedule is the list of ticks still to come, and once it is used up
  the operator does nothing more.
\<close>

type_synonym tick = "action list"

definition operator :: "tick \<Rightarrow> bp_state \<Rightarrow> bp_state" where
  "operator t s = fold click t s"

fun await :: "tick list \<Rightarrow> bp_state \<Rightarrow> tick list \<times> bp_state" where
  "await [] s = ([], s)"
| "await (t # ts) s = (ts, operator t s)"

text \<open>
  The pause loop \<open>while (pauseRef.current) { if (stopRef.current) break; await 500ms }\<close>.
  \<open>None\<close>: the schedule is used up with pause engaged and no stop, so the loop polls
  for ever.
\<close>

fun pausePoll :: "tick list \<Rightarrow> bp_state \<Rightarrow> (tick list \<times> bp_state) option" where
  "pausePoll [] s = (if pauseRef s \<and> \<not> stopRef s then None else Some ([], s))"
| "pausePoll (t # ts) s =
     (if pauseRef s \<and> \<not> stopRef s then pausePoll ts (operator t s) else Some (t # ts, s))"

text \<open>
  One work item as the loop meets it: the text, what \<open>analyzeText\<close> does with it
  (\<open>Inl\<close>: throws) and what the table insert inside \<open>saveRecord\<close> does.
\<close>

record 'd work =
  text_of :: jsstring
  classifier :: "js_error + AnalysisResult"
  store :: "'d insert_outcome"

definition MAX_DISPLAY_HISTORY :: nat where
  "MAX_DISPLAY_HISTORY = 100"

text \<open>
  The placeholder built in the \<open>catch\<close> block, and the state updates of the
  \<open>try\<close> block after its two awaits and of the \<open>catch\<close> block.
\<close>

definition errorResult :: "jsstring \<Rightarrow> AnalysisResult" where
  "errorResult txt = \<lparr> original_text = txt,
                        corrected_text = lit ''Error processing this item.'',
                        annotations = [] \<rparr>"

definition onSuccess :: "AnalysisResult \<Rightarrow> bp_state \<Rightarrow> bp_state" where
  "onSuccess r s = s\<lparr> latestResult := Some r,
       displayResults := take MAX_DISPLAY_HISTORY (r # displayResults s),
       batchAnnotations := batchAnnotations s @ annotations r,
       progress := (progress s)\<lparr> current := current (progress s) + 1,
                                  success := success (progress s) + 1 \<rparr> \<rparr>"

definition onCatch :: "jsstring \<Rightarrow> bp_state \<Rightarrow> bp_state" where
  "onCatch txt s = s\<lparr>
       displayResults := take MAX_DISPLAY_HISTORY (errorResult txt # displayResults s),
       progress := (progress s)\<lparr> current := current (progress s) + 1,
                                  failed := failed (progress s) + 1 \<rparr> \<rparr>"

text \<open>
  The \<open>try\<close>/\<open>catch\<close> of one iteration. The \<open>try\<close> block covers both awaits, so an
  exception out of \<open>saveRecord\<close> would land in the \<open>catch\<close> as well.
\<close>

definition processItem :: "'d work \<Rightarrow> tick list \<Rightarrow> bp_state \<Rightarrow> tick list \<times> bp_state" where
  "processItem w ts s =
     (let (ts1, s1) = await ts (s\<lparr> classified := classified s @ [text_of w] \<rparr>) in
      case classifier w of
        Inl err \<Rightarrow> (ts1, onCatch (text_of w) s1)
      | Inr r \<Rightarrow>
          (let (ts2, s2) = await ts1 (s1\<lparr> saved := saved s1 @ [r] \<rparr>) in
           case saveRecord r (store w) of
             Inl err \<Rightarrow> (ts2, onCatch (text_of w) s2)
           | Inr d \<Rightarrow> (ts2, onSuccess r s2)))"

text \<open>
  A run of the loop: how it ended, the state it ended in, and the state right after each
  item's updates (the snapshots the observer sees).
\<close>

datatype ending = Returned | PollsForever

record run =
  ending :: ending
  final :: bp_state
  emitted :: "bp_state list"

fun loop :: "'d work list \<Rightarrow> tick list \<Rightarrow> bp_state \<Rightarrow> run" where
  "loop [] ts s = \<lparr> ending = Returned, final = s, emitted = [] \<rparr>"
| "loop (w # ws) ts s =
     (if stopRef s then \<lparr> ending = Returned, final = s, emitted = [] \<rparr>
      else case pausePoll ts s of
        None \<Rightarrow> \<lparr> ending = PollsForever, final = s, emitted = [] \<rparr>
      | Some (ts1, s1) \<Rightarrow>
          (let (ts2, s2) = processItem w ts1 s1;
               (ts3, s3) = await ts2 s2;
               r = loop ws ts3 s3
           in r\<lparr> emitted := s2 # emitted r \<rparr>))"

text \<open>
  \<open>processQueue\<close> around the loop, and \<open>handleStart\<close>, its only caller. A run that
  polls for ever never reaches the two statements after the loop.
\<close>

definition processQueue :: "'d work list \<Rightarrow> tick list \<Rightarrow> bp_state \<Rightarrow> run" where
  "processQueue items ts s =
     (let r = loop items ts
                (s\<lparr> isProcessing := True, stopRef := False, pauseRef := False,
                    isPaused := False \<rparr>)
      in case ending r of
           PollsForever \<Rightarrow> r
         | Returned \<Rightarrow>
             r\<lparr> final := (final r)\<lparr> isProcessing := False,
                                     completed := completed (final r) + 1 \<rparr> \<rparr>)"

definition handleStart :: "'d work list \<Rightarrow> tick list \<Rightarrow> bp_state \<Rightarrow> run" where
  "handleStart inputs ts s =
     processQueue inputs ts
       (s\<lparr> displayResults := [], batchAnnotations := [], latestResult := None,
           progress := \<lparr> current = 0, total = length inputs, success = 0, failed = 0 \<rparr> \<rparr>)"

section \<open>Reference definitions\<close>

subsection \<open>What parseCSV is meant to compute\<close>

text \<open>
  Line endings in one pass: CR LF and a lone CR both become LF.
\<close>

fun eol_to_lf :: "jsstring \<Rightarrow> jsstring" where
  "eol_to_lf [] = []"
| "eol_to_lf (c # cs) =
     (if c = CR then
        (case cs of
           d # ds \<Rightarrow> if d = LF then LF # eol_to_lf ds else LF # eol_to_lf cs
         | [] \<Rightarrow> [LF])
      else c # eol_to_lf cs)"

text \<open>
  Quoting read as a lexer: \<open>Some c\<close> is a character of an entry (a doubled quote
  inside quotes is one quote character, a line feed inside quotes is a character like
  any other), \<open>None\<close> is a line feed outside quotes, which ends a line. \<open>records\<close>
  cuts such a sequence at each \<open>None\<close>; \<open>glue\<close> puts characters in front of the
  first record.
\<close>

fun glue :: "'a list \<Rightarrow> 'a list list \<Rightarrow> 'a list list" where
  "glue cur [] = [cur]"
| "glue cur (r # rs) = (cur @ r) # rs"

fun lex_csv :: "bool \<Rightarrow> jsstring \<Rightarrow> jschar option list" where
  "lex_csv inQuote [] = []"
| "lex_csv True (c # cs) =
     (if c = DQUOTE then
        (case cs of
           d # ds \<Rightarrow> if d = DQUOTE then Some DQUOTE # lex_csv True ds else lex_csv False cs
         | [] \<Rightarrow> [])
      else Some c # lex_csv True cs)"
| "lex_csv False (c # cs) =
     (if c = DQUOTE then lex_csv True cs
      else if c = LF then None # lex_csv False cs
      else Some c # lex_csv False cs)"

fun records :: "'a option list \<Rightarrow> 'a list list" where
  "records [] = [[]]"
| "records (None # ts) = [] # records ts"
| "records (Some c # ts) = glue [c] (records ts)"

text \<open>\<open>split_lf\<close> is \<open>s.split('\n')\<close>; \<open>entries\<close> trims and keeps what is not empty.\<close>

fun split_lf :: "jsstring \<Rightarrow> jsstring list" where
  "split_lf [] = [[]]"
| "split_lf (c # cs) = (if c = LF then [] # split_lf cs else glue [c] (split_lf cs))"

definition entries :: "jsstring list \<Rightarrow> jsstring list" where
  "entries rs = filter (\<lambda>e. e \<noteq> []) (map trim rs)"

text \<open>A field written in quotes, each quote inside it doubled.\<close>

definition quoted :: "jsstring \<Rightarrow> jsstring" where
  "quoted field = DQUOTE # concat (map (\<lambda>c. if c = DQUOTE then [DQUOTE, DQUOTE] else [c]) field)
                   @ [DQUOTE]"

subsection \<open>Rendered text and well-formed annotations\<close>

text \<open>
  \<open>rendered\<close> is the text the elements show, \<open>marked\<close> the annotations of the
  highlighted elements in order. \<open>in_text\<close> and \<open>non_overlapping\<close> are the
  conditions on the spans: inside the text and not empty, and pairwise apart (by
  position in the list, so that a span listed twice overlaps itself). \<open>chained\<close>:
  each span starts at or after the end of the one before, the first at or after \<open>l\<close>.
\<close>

definition rendered :: "segment list \<Rightarrow> jsstring" where
  "rendered elements = concat (map segment_text elements)"

fun marked :: "segment list \<Rightarrow> Annotation list" where
  "marked [] = []"
| "marked (AnnSpan idx ann t # es) = ann # marked es"
| "marked (e # es) = marked es"

definition in_text :: "jsstring \<Rightarrow> Annotation \<Rightarrow> bool" where
  "in_text originalText ann \<longleftrightarrow>
     0 \<le> start_index ann \<and> start_index ann < end_index ann \<and>
     end_index ann \<le> int (length originalText)"

definition apart :: "Annotation \<Rightarrow> Annotation \<Rightarrow> bool" where
  "apart a b \<longleftrightarrow> end_index a \<le> start_index b \<or> end_index b \<le> start_index a"

fun non_overlapping :: "Annotation list \<Rightarrow> bool" where
  "non_overlapping [] = True"
| "non_overlapping (a # as) = (list_all (apart a) as \<and> non_overlapping as)"

fun chained :: "int \<Rightarrow> Annotation list \<Rightarrow> bool" where
  "chained l [] = True"
| "chained l (a # as) = (l \<le> start_index a \<and> start_index a < end_index a \<and> chained (end_index a) as)"

subsection \<open>Retries\<close>

text \<open>
  \<open>retryable_failure\<close>: the \<open>k\<close>-th underlying call fails and the test of the
  \<open>catch\<close> block holds. \<open>wait_for_retry env n\<close> is the delay before retry \<open>n\<close>
  (counted from 1), with the jitter of that retry.

  Errors by what they carry: \<open>throttled\<close> has the status of a rate limit (429) or of
  an overloaded service (503); \<open>mentions_throttling\<close> has \<open>429\<close> or \<open>503\<close>
  somewhere in its message. \<open>throttled_failure\<close>: the \<open>k\<close>-th underlying call
  fails with a throttled error. \<open>settles\<close>: it succeeds, or fails with an error that
  is not throttled and does not mention throttling.

  \<open>rounds_faithfully\<close>: rounding to a Number is monotone and leaves the integers up
  to \<open>2 ^ 53\<close> as they are, as rounding to the nearest binary64 value does.
\<close>

definition retryable_failure :: "gemini_env \<Rightarrow> jsstring \<Rightarrow> nat \<Rightarrow> bool" where
  "retryable_failure env inp k =
     (case attempt env inp k of
        Inl err \<Rightarrow> isRateLimit err \<or> isServerOverload err
      | Inr result \<Rightarrow> False)"

definition wait_for_retry :: "gemini_env \<Rightarrow> nat \<Rightarrow> real" where
  "wait_for_retry env n = waitTime env n (n - 1)"

definition throttled :: "js_error \<Rightarrow> bool" where
  "throttled err \<longleftrightarrow> status err = Some 429 \<or> status err = Some 503"

definition mentions_throttling :: "js_error \<Rightarrow> bool" where
  "mentions_throttling err \<longleftrightarrow>
     (case message err of
        None \<Rightarrow> False
      | Some m \<Rightarrow> js_includes m (lit ''429'') \<or> js_includes m (lit ''503''))"

definition throttled_failure :: "gemini_env \<Rightarrow> jsstring \<Rightarrow> nat \<Rightarrow> bool" where
  "throttled_failure env inp k =
     (case attempt env inp k of Inl err \<Rightarrow> throttled err | Inr result \<Rightarrow> False)"

definition settles :: "gemini_env \<Rightarrow> jsstring \<Rightarrow> nat \<Rightarrow> bool" where
  "settles env inp k =
     (case attempt env inp k of
        Inl err \<Rightarrow> \<not> throttled err \<and> \<not> mentions_throttling err
      | Inr result \<Rightarrow> True)"

definition rounds_faithfully :: "gemini_env \<Rightarrow> bool" where
  "rounds_faithfully env \<longleftrightarrow>
     (\<forall>x y. x \<le> y \<longrightarrow> to_number env x \<le> to_number env y) \<and>
     (\<forall>k :: int. \<bar>k\<bar> \<le> 2 ^ 53 \<longrightarrow> to_number env (of_int k) = of_int k)"

subsection \<open>Runs of the dispatch loop\<close>

text \<open>
  \<open>counted\<close> is the accounting invariant. \<open>data\<close> forgets the control flags of a
  state, which only the operator and the start of a run write. \<open>shown w\<close> is the
  result displayed for an item, \<open>settle w\<close> what one iteration does to the state when
  nobody clicks, \<open>settled\<close> the states after each item of a list, \<open>persisted\<close> the
  results handed to \<open>saveRecord\<close>, \<open>throws w\<close> says that the classifier throws on
  \<open>w\<close>, and \<open>begun\<close> is the state in which \<open>handleStart\<close> enters the loop.
\<close>

definition counted :: "bp_state \<Rightarrow> bool" where
  "counted s \<longleftrightarrow> success (progress s) + failed (progress s) = current (progress s)"

definition data :: "bp_state \<Rightarrow> bp_state" where
  "data s = s\<lparr> isProcessing := False, isPaused := False, stopRef := False, pauseRef := False \<rparr>"

definition shown :: "'d work \<Rightarrow> AnalysisResult" where
  "shown w = (case classifier w of Inl err \<Rightarrow> errorResult (text_of w) | Inr r \<Rightarrow> r)"

definition settle :: "'d work \<Rightarrow> bp_state \<Rightarrow> bp_state" where
  "settle w s =
     (case classifier w of
        Inl err \<Rightarrow> onCatch (text_of w) (s\<lparr> classified := classified s @ [text_of w] \<rparr>)
      | Inr r \<Rightarrow> onSuccess r (s\<lparr> classified := classified s @ [text_of w],
                                  saved := saved s @ [r] \<rparr>))"

fun settled :: "'d work list \<Rightarrow> bp_state \<Rightarrow> bp_state list" where
  "settled [] s = []"
| "settled (w # ws) s = settle w s # settled ws (settle w s)"

definition persisted :: "'d work list \<Rightarrow> AnalysisResult list" where
  "persisted ws = concat (map (\<lambda>w. case classifier w of Inl err \<Rightarrow> [] | Inr r \<Rightarrow> [r]) ws)"

definition throws :: "'d work \<Rightarrow> bool" where
  "throws w = isl (classifier w)"

definition begun :: "'d work list \<Rightarrow> bp_state \<Rightarrow> bp_state" where
  "begun inputs s =
     s\<lparr> displayResults := [], batchAnnotations := [], latestResult := None,
        progress := \<lparr> current = 0, total = length inputs, success = 0, failed = 0 \<rparr>,
        isProcessing := True, stopRef := False, pauseRef := False, isPaused := False \<rparr>"

text \<open>
  Schedules: \<open>toggles\<close> counts the pause clicks. \<open>calm\<close>: no stop has been or
  will be requested. \<open>steady\<close>: moreover the run is processing, \<open>pauseRef\<close>
  agrees with \<open>isPaused\<close>, and pause is engaged exactly when an odd number of pause
  clicks is still to come, so that every pause is resumed.
\<close>

definition toggles :: "tick list \<Rightarrow> nat" where
  "toggles ts = length (filter (\<lambda>a. a = TogglePause) (concat ts))"

definition calm :: "tick list \<Rightarrow> bp_state \<Rightarrow> bool" where
  "calm ts s \<longleftrightarrow> \<not> stopRef s \<and> Stop \<notin> set (concat ts)"

definition steady :: "tick list \<Rightarrow> bp_state \<Rightarrow> bool" where
  "steady ts s \<longleftrightarrow> isProcessing s \<and> \<not> stopRef s \<and> pauseRef s = isPaused s \<and>
     pauseRef s = odd (toggles ts) \<and> Stop \<notin> set (concat ts)"

subsection \<open>Sample inputs\<close>

definition sample_text :: jsstring where
  "sample_text = lit ''a,b'' @ [CR, LF] @ lit ''  q '' @ [CR, CR] @ lit ''c''"

definition sample_body :: jsstring where
  "sample_body = lit ''x '' @ [DQUOTE] @ lit ''y'' @ [DQUOTE, LF] @ lit ''z''"

definition sample_ann :: "int \<Rightarrow> int \<Rightarrow> Annotation" where
  "sample_ann i j = \<lparr> original_span = [], corrected_span = [], start_index = i, end_index = j,
     error_code = lit ''AGV'', macro_code = lit ''AG'', explanation = [] \<rparr>"

definition always_overloaded :: gemini_env where
  "always_overloaded =
     \<lparr> API_KEY = True,
       generateContent = (\<lambda>k p. Inl \<lparr> message = Some (lit ''The model is overloaded''),
                                       status = Some 503 \<rparr>),
       JSON_parse = (\<lambda>j. Inl (Error ''Unexpected end of JSON input'')),
       Math_random = (\<lambda>i. 1 / 2),
       to_number = (\<lambda>x. x) \<rparr>"

definition recovers_after_two :: gemini_env where
  "recovers_after_two =
     \<lparr> API_KEY = True,
       generateContent = (\<lambda>k p. if k < 2
          then Inl \<lparr> message = Some (lit ''Resource has been exhausted''), status = Some 429 \<rparr>
          else Inr (Some (lit ''{}''))),
       JSON_parse = (\<lambda>j. Inr \<lparr> parsed_original_text = None,
                                parsed_corrected_text = lit ''He goes to school.'',
                                parsed_annotations = [] \<rparr>),
       Math_random = (\<lambda>i. 1 / 4),
       to_number = (\<lambda>x. x) \<rparr>"

definition misconfigured :: gemini_env where
  "misconfigured =
     \<lparr> API_KEY = True,
       generateContent = (\<lambda>k p. Inl \<lparr> message = Some (lit ''Permission denied''),
                                       status = Some 403 \<rparr>),
       JSON_parse = (\<lambda>j. Inl (Error ''Unexpected end of JSON input'')),
       Math_random = (\<lambda>i. 0),
       to_number = (\<lambda>x. x) \<rparr>"

definition no_api_key :: gemini_env where
  "no_api_key = misconfigured\<lparr> API_KEY := False \<rparr>"

definition misleading_bad_request :: gemini_env where
  "misleading_bad_request =
     \<lparr> API_KEY = True,
       generateContent = (\<lambda>k p. Inl \<lparr> message = Some (lit ''invalid id 4290''),
                                       status = Some 400 \<rparr>),
       JSON_parse = (\<lambda>j. Inl (Error ''Unexpected end of JSON input'')),
       Math_random = (\<lambda>i. 0),
       to_number = (\<lambda>x. x) \<rparr>"

definition overloaded_backend :: fetch_env where
  "overloaded_backend =
     \<lparr> apiBaseUrl = lit ''https://api.example'',
       fetch = (\<lambda>t. Inr \<lparr> ok = False, http_status = 429,
                           body = lit ''429 Too Many Requests'' \<rparr>),
       error_field = (\<lambda>t. None),
       response_json = (\<lambda>t. Inl (Error ''Unexpected token'')),
       request_failed = (\<lambda>n. lit ''Request failed (429)'') \<rparr>"

definition no_backend :: fetch_env where
  "no_backend = overloaded_backend\<lparr> apiBaseUrl := [] \<rparr>"

definition unreachable_backend :: fetch_env where
  "unreachable_backend = overloaded_backend\<lparr> fetch := (\<lambda>t. Inl (Error ''Failed to fetch'')) \<rparr>"

definition garbled_backend :: fetch_env where
  "garbled_backend =
     overloaded_backend\<lparr> fetch := (\<lambda>t. Inr \<lparr> ok = True, http_status = 200, body = lit ''<html>'' \<rparr>) \<rparr>"

definition sample_ok :: "string \<Rightarrow> unit work" where
  "sample_ok t = \<lparr> text_of = lit t,
      classifier = Inr \<lparr> original_text = lit t, corrected_text = lit t, annotations = [] \<rparr>,
      store = InsertResolves () None \<rparr>"

definition sample_fatal :: "string \<Rightarrow> unit work" where
  "sample_fatal t = \<lparr> text_of = lit t,
      classifier = Inl \<lparr> message = Some (lit ''API URL is missing''), status = None \<rparr>,
      store = InsertResolves () None \<rparr>"

definition three_items :: "unit work list" where
  "three_items = [sample_ok ''He go school.'', sample_fatal ''She is happy.'', sample_ok ''Fine.'']"

definition two_items :: "unit work list" where
  "two_items = [sample_ok ''a'', sample_ok ''b'']"

definition store_down :: "unit work \<Rightarrow> unit work" where
  "store_down w = w\<lparr> store := InsertRejects \<lparr> message = Some (lit ''Failed to fetch''),
                                                status = None \<rparr> \<rparr>"

definition pause_then_resume :: "tick list" where
  "pause_then_resume = [[TogglePause], [], [], [], [TogglePause]]"

definition pause_then_stop :: "tick list" where
  "pause_then_stop = [[TogglePause], [], [], [Stop]]"

section \<open>parseCSV\<close>

lemma chars_distinct [simp]:
  "CR \<noteq> LF" "LF \<noteq> CR" "CR \<noteq> DQUOTE" "DQUOTE \<noteq> CR" "LF \<noteq> DQUOTE" "DQUOTE \<noteq> LF"
  by (simp_all add: CR_def LF_def DQUOTE_def)

lemmas char_defs = lit_def CR_def LF_def DQUOTE_def

lemma normalized_eol: "normalized s = eol_to_lf s"
  unfolding normalized_def
proof (induction s rule: replace_crlf.induct)
  case (1 c d cs)
  then show ?case by (cases cs) (auto simp: replace_cr_def)
qed (simp_all add: replace_cr_def)

lemma no_CR_normalized: "CR \<notin> set (normalized text)"
  by (auto simp: normalized_def replace_cr_def)

lemma eol_to_lf_id: "CR \<notin> set s \<Longrightarrow> eol_to_lf s = s"
  by (induction s) auto

lemma glue_glue: "glue a (glue b rs) = glue (a @ b) rs"
  by (cases rs) simp_all

lemma records_nonempty: "records ts \<noteq> []"
proof (induction ts rule: records.induct)
  case 1
  then show ?case by simp
next
  case (2 ts)
  then show ?case by simp
next
  case (3 c ts)
  then show ?case by (cases "records ts") simp_all
qed

lemma glue_Nil: "rs \<noteq> [] \<Longrightarrow> glue [] rs = rs"
  by (cases rs) simp_all

lemma entries_Cons: "entries (r # rs) = entries [r] @ entries rs"
  by (simp add: entries_def)

lemma push_trimmed_entries: "push_trimmed cur results = results @ entries [cur]"
  by (simp add: push_trimmed_def entries_def)

lemma scan_records:
  "scan cs inQuote cur results = results @ entries (glue cur (records (lex_csv inQuote cs)))"
proof (induction cs inQuote cur results rule: scan.induct)
  case (1 inQuote cur results)
  then show ?case by (simp add: push_trimmed_entries)
next
  case (2 c cs cur results)
  show ?case
  proof (cases "c = DQUOTE")
    case True
    show ?thesis
    proof (cases cs)
      case Nil
      with True 2 show ?thesis by (simp add: push_trimmed_entries)
    next
      case (Cons d ds)
      with True 2 show ?thesis by (simp add: glue_glue)
    qed
  next
    case False
    with 2 show ?thesis by (simp add: glue_glue)
  qed
next
  case (3 c cs cur results)
  show ?case
  proof (cases "c = DQUOTE")
    case True
    with 3 show ?thesis by simp
  next
    case nq: False
    show ?thesis
    proof (cases "c = LF")
      case True
      have "entries (cur # records (lex_csv False cs)) =
            entries [cur] @ entries (records (lex_csv False cs))"
        by (rule entries_Cons)
      with True nq 3 show ?thesis
        by (simp add: push_trimmed_entries glue_Nil records_nonempty)
    next
      case False
      with nq 3 show ?thesis by (simp add: glue_glue)
    qed
  qed
qed

lemma lex_csv_plain_step:
  "c \<noteq> DQUOTE \<Longrightarrow> records (lex_csv False s) = split_lf s \<Longrightarrow>
   records (lex_csv False (c # s)) = split_lf (c # s)"
  by (cases "c = LF") simp_all

lemma lex_csv_plain:
  "DQUOTE \<notin> set s \<Longrightarrow> records (lex_csv False s) = split_lf s"
proof (induction s)
  case Nil
  then show ?case by simp
next
  case (Cons c s)
  have 1: "c \<noteq> DQUOTE" using Cons.prems by (metis list.set_intros(1))
  have 2: "DQUOTE \<notin> set s" using Cons.prems by (metis list.set_intros(2))
  show ?case using lex_csv_plain_step [OF 1 Cons.IH [OF 2]] .
qed

lemma set_replace_crlf: "set (replace_crlf s) \<subseteq> set s"
  by (induction s rule: replace_crlf.induct) auto

lemma set_normalized: "set (normalized s) \<subseteq> insert LF (set s)"
  using set_replace_crlf [of s] by (auto simp: normalized_def replace_cr_def)

lemma DQUOTE_eol: "DQUOTE \<notin> set s \<Longrightarrow> DQUOTE \<notin> set (eol_to_lf s)"
  using set_normalized [of s] chars_distinct(6) unfolding normalized_eol by blast

lemma lex_csv_escaped:
  "lex_csv True (concat (map (\<lambda>c. if c = DQUOTE then [DQUOTE, DQUOTE] else [c]) field) @ [DQUOTE]) =
   map Some field"
  by (induction field) simp_all

lemma records_map_Some: "records (map Some field) = [field]"
  by (induction field) simp_all

lemma set_quoted: "set (quoted field) \<subseteq> insert DQUOTE (set field)"
  unfolding quoted_def by (induction field) auto

lemma CR_quoted: "CR \<notin> set field \<Longrightarrow> CR \<notin> set (quoted field)"
  using set_quoted [of field] chars_distinct(3) by blast

text \<open>
  C9. For every input string \<open>parseCSV\<close> first turns CR LF and lone CR into LF (the
  two replacements amount to the one-pass rewriting, and no CR is left), and it returns,
  in file order, the trimmed entries that are not empty, one for each line, where lines
  end at the line feeds outside quoted regions and a doubled quote inside a quoted
  region stands for one quote character. Two readings of this: on a text without quotes
  the result is the trimmed non-empty lines of the normalized text; and a field written
  in quotes with its quotes doubled is read back as that field, trimmed.
\<close>

theorem C9_parseCSV_entries:
  "normalized s = eol_to_lf s \<and> CR \<notin> set (normalized s) \<and>
   parseCSV s = entries (records (lex_csv False (eol_to_lf s))) \<and>
   (DQUOTE \<notin> set s \<longrightarrow> parseCSV s = entries (split_lf (eol_to_lf s))) \<and>
   (CR \<notin> set field \<longrightarrow> parseCSV (quoted field) = entries [field])"
proof -
  have g: "parseCSV u = entries (records (lex_csv False (eol_to_lf u)))" for u
    by (simp add: parseCSV_def scan_records normalized_eol glue_Nil records_nonempty)
  have p: "parseCSV s = entries (split_lf (eol_to_lf s))" if "DQUOTE \<notin> set s"
    using g [of s] lex_csv_plain [OF DQUOTE_eol [OF that]] by simp
  have q: "parseCSV (quoted field) = entries [field]" if "CR \<notin> set field"
  proof -
    have "eol_to_lf (quoted field) = quoted field"
      using CR_quoted [OF that] by (rule eol_to_lf_id)
    moreover have "lex_csv False (quoted field) = map Some field"
      by (simp add: quoted_def lex_csv_escaped)
    ultimately show ?thesis using g [of "quoted field"] by (simp add: records_map_Some)
  qed
  show ?thesis
    using g [of s] p q normalized_eol [of s] no_CR_normalized [of s] by simp
qed

theorem C9_witness:
  "DQUOTE \<notin> set sample_text \<and>
   parseCSV sample_text = [lit ''a,b'', lit ''q'', lit ''c''] \<and>
   CR \<notin> set sample_body \<and>
   parseCSV (quoted sample_body) = [sample_body]"
proof -
  have h1: "DQUOTE \<notin> set sample_text"
    by (simp add: sample_text_def char_defs)
  have h2: "CR \<notin> set sample_body"
    by (simp add: sample_body_def char_defs)
  have e1: "entries (split_lf (eol_to_lf sample_text)) = [lit ''a,b'', lit ''q'', lit ''c'']"
    by (simp add: sample_text_def char_defs entries_def trim_def isWhiteSpace_def)
  have e2: "entries [sample_body] = [sample_body]"
    by (simp add: sample_body_def char_defs entries_def trim_def isWhiteSpace_def)
  note t = C9_parseCSV_entries [of sample_text sample_body]
  have a: "parseCSV sample_text = entries (split_lf (eol_to_lf sample_text))"
    using t [THEN conjunct2, THEN conjunct2, THEN conjunct2, THEN conjunct1] h1 by (rule mp)
  have b: "parseCSV (quoted sample_body) = entries [sample_body]"
    using t [THEN conjunct2, THEN conjunct2, THEN conjunct2, THEN conjunct2] h2 by (rule mp)
  show ?thesis using h1 h2 a b unfolding e1 e2 by simp
qed

section \<open>renderText\<close>

lemma slice_plain:
  "0 \<le> a \<Longrightarrow> a \<le> b \<Longrightarrow> b \<le> int (length s) \<Longrightarrow>
   js_slice s a b = take (nat (b - a)) (drop (nat a) s)"
  by (auto simp: js_slice_def Let_def)

lemma slice_same: "js_slice s a a = []"
  by (simp add: js_slice_def Let_def)

lemma slice_append:
  assumes "0 \<le> a" "a \<le> b" "b \<le> c" "c \<le> int (length s)"
  shows "js_slice s a b @ js_slice s b c = js_slice s a c"
proof -
  have "take (nat (c - a)) (drop (nat a) s) =
        take (nat (b - a) + nat (c - b)) (drop (nat a) s)"
    using assms by (simp add: nat_add_distrib [symmetric])
  also have "\<dots> = take (nat (b - a)) (drop (nat a) s) @
                  take (nat (c - b)) (drop (nat (b - a)) (drop (nat a) s))"
    by (rule take_add)
  also have "drop (nat (b - a)) (drop (nat a) s) = drop (nat b) s"
    using assms by (simp add: nat_add_distrib [symmetric])
  finally show ?thesis using assms by (simp add: slice_plain)
qed

lemma apart_sym: "apart a b = apart b a"
  by (auto simp: apart_def)

lemma non_overlapping_insort:
  "non_overlapping (insort_key f a xs) = (list_all (apart a) xs \<and> non_overlapping xs)"
proof (induction xs)
  case Nil
  then show ?case by simp
next
  case (Cons x xs)
  then show ?case
    by (auto simp: list_all_iff set_insort_key apart_sym [of a])
qed

lemma non_overlapping_sort: "non_overlapping (sort_key f xs) = non_overlapping xs"
  by (induction xs) (simp_all add: non_overlapping_insort list_all_iff)

lemma chained_sorted:
  assumes "sorted (map start_index ys)" "non_overlapping ys"
      and "\<forall>b \<in> set ys. l \<le> start_index b \<and> start_index b < end_index b"
  shows "chained l ys"
  using assms
proof (induction ys arbitrary: l)
  case Nil
  then show ?case by simp
next
  case (Cons a as)
  have "\<forall>b \<in> set as. end_index a \<le> start_index b \<and> start_index b < end_index b"
  proof
    fix b assume b: "b \<in> set as"
    have 1: "start_index a \<le> start_index b" using Cons.prems(1) b by auto
    have 2: "start_index b < end_index b" using Cons.prems(3) b by simp
    have "apart a b" using Cons.prems(2) b by (simp add: list_all_iff)
    with 1 2 show "end_index a \<le> start_index b \<and> start_index b < end_index b"
      by (auto simp: apart_def)
  qed
  moreover have "sorted (map start_index as)" "non_overlapping as"
    using Cons.prems by simp_all
  ultimately have "chained (end_index a) as" using Cons.IH by blast
  with Cons.prems(3) show ?case by simp
qed

lemma render_each_chained:
  assumes "chained l xs" "0 \<le> l" "\<forall>a \<in> set xs. end_index a \<le> int (length t)"
      and "l \<le> int (length t)"
      and "render_each t xs idx l els = (els', l')"
  shows "rendered els' = rendered els @ js_slice t l l' \<and> l \<le> l' \<and> l' \<le> int (length t) \<and>
         marked els' = marked els @ xs"
  using assms
proof (induction xs arbitrary: l idx els)
  case Nil
  then show ?case by (simp add: js_slice_def)
next
  case (Cons a as)
  let ?e1 = "if start_index a > l then els @ [TextSpan idx (js_slice t l (start_index a))] else els"
  let ?e2 = "?e1 @ [AnnSpan idx a (js_slice t (start_index a) (end_index a))]"
  have b: "l \<le> start_index a" "start_index a < end_index a" "end_index a \<le> int (length t)"
    and ch: "chained (end_index a) as"
    using Cons.prems(1,3) by simp_all
  have r: "render_each t as (Suc idx) (end_index a) ?e2 = (els', l')"
    using Cons.prems(5) by (simp add: Let_def)
  have ih: "rendered els' = rendered ?e2 @ js_slice t (end_index a) l' \<and> end_index a \<le> l' \<and>
            l' \<le> int (length t) \<and> marked els' = marked ?e2 @ as"
    using Cons.IH [OF ch _ _ b(3) r] Cons.prems(2,3) b by simp
  have e1: "rendered ?e1 = rendered els @ js_slice t l (start_index a)"
    using b by (auto simp: rendered_def slice_same)
  have e2: "rendered ?e2 = rendered els @ js_slice t l (end_index a)"
    using e1 slice_append [of l "start_index a" "end_index a" t] Cons.prems(2) b
    by (simp add: rendered_def)
  have m: "marked xs2 @ ys = marked (xs2 @ ys')" if "marked ys' = ys" for xs2 ys ys'
    using that by (induction xs2 rule: marked.induct) simp_all
  have me: "marked (ys @ zs) = marked ys @ marked zs" for ys zs
    by (induction ys rule: marked.induct) simp_all
  have m2: "marked ?e2 = marked els @ [a]"
    by (simp add: me)
  from ih e2 m2 slice_append [of l "end_index a" l' t] Cons.prems(2) b
  show ?case by simp
qed

text \<open>
  C10. When every span lies in the text with \<open>0 \<le> start_index < end_index \<le> length\<close>
  and the spans are pairwise non-overlapping, the elements of \<open>renderText\<close> show
  exactly the original text when put together, and the highlighted elements are the
  annotations sorted by \<open>start_index\<close>.
\<close>

theorem C10_render_preserves_text:
  assumes "\<forall>a \<in> set anns. in_text originalText a"
      and "non_overlapping anns"
  shows "rendered (renderText originalText anns) = originalText \<and>
         marked (renderText originalText anns) = sort_key start_index anns \<and>
         sorted (map start_index (marked (renderText originalText anns)))"
proof -
  let ?xs = "sortedAnnotations anns"
  obtain els l where r: "render_each originalText ?xs 0 0 [] = (els, l)"
    by (cases "render_each originalText ?xs 0 0 []")
  have s: "sorted (map start_index ?xs)" by (simp add: sortedAnnotations_def)
  have n: "non_overlapping ?xs"
    using assms(2) by (simp add: sortedAnnotations_def non_overlapping_sort)
  have v: "\<forall>b \<in> set ?xs. 0 \<le> start_index b \<and> start_index b < end_index b"
    "\<forall>a \<in> set ?xs. end_index a \<le> int (length originalText)"
    using assms(1) by (simp_all add: sortedAnnotations_def in_text_def)
  have ch: "chained 0 ?xs" using chained_sorted [OF s n v(1)] .
  have res: "rendered els = js_slice originalText 0 l" "0 \<le> l" "l \<le> int (length originalText)"
    "marked els = ?xs"
    using render_each_chained [OF ch _ v(2) _ r] by (simp_all add: rendered_def)
  have whole: "rendered (renderText originalText anns) = originalText"
  proof (cases "l < int (length originalText)")
    case True
    have "js_slice originalText 0 l @ js_slice_from originalText l = originalText"
      using slice_append [of 0 l "int (length originalText)" originalText] res
      by (simp add: js_slice_from_def slice_plain)
    with True r res show ?thesis by (simp add: renderText_def rendered_def)
  next
    case False
    with res have "l = int (length originalText)" by simp
    with r res show ?thesis by (simp add: renderText_def slice_plain)
  qed
  have me: "marked (ys @ [TextEnd z]) = marked ys" for ys z
    by (induction ys rule: marked.induct) simp_all
  have mk: "marked (renderText originalText anns) = ?xs"
    using r res by (simp add: renderText_def me)
  show ?thesis using whole mk s by (simp add: sortedAnnotations_def)
qed

theorem C10_witness:
  "in_text (lit ''He go school.'') (sample_ann 3 5) \<and>
   in_text (lit ''He go school.'') (sample_ann 0 2) \<and>
   non_overlapping [sample_ann 3 5, sample_ann 0 2] \<and>
   rendered (renderText (lit ''He go school.'') [sample_ann 3 5, sample_ann 0 2]) =
     lit ''He go school.'' \<and>
   marked (renderText (lit ''He go school.'') [sample_ann 3 5, sample_ann 0 2]) =
     [sample_ann 0 2, sample_ann 3 5]"
proof -
  have h1: "\<forall>a \<in> set [sample_ann 3 5, sample_ann 0 2]. in_text (lit ''He go school.'') a"
    by (simp add: in_text_def sample_ann_def lit_def)
  have h2: "non_overlapping [sample_ann 3 5, sample_ann 0 2]"
    by (simp add: apart_def sample_ann_def)
  have e: "sort_key start_index [sample_ann 3 5, sample_ann 0 2] = [sample_ann 0 2, sample_ann 3 5]"
    by (simp add: sample_ann_def)
  from C10_render_preserves_text [OF h1 h2] h1 h2 show ?thesis
    unfolding e by simp
qed

lemma renderText_example:
  "renderText (lit ''He go school.'') [sample_ann 3 5, sample_ann 0 2] =
     [AnnSpan 0 (sample_ann 0 2) (lit ''He''), TextSpan 1 (lit '' ''),
      AnnSpan 1 (sample_ann 3 5) (lit ''go''), TextEnd (lit '' school.'')]"
  by (simp add: renderText_def sortedAnnotations_def sample_ann_def lit_def js_slice_def
      js_slice_from_def Let_def)

section \<open>The dispatch loop\<close>

lemma counted_click: "counted (click a s) = counted s"
  by (cases a) (simp_all add: counted_def togglePause_def handleStop_def)

lemma counted_operator: "counted (operator t s) = counted s"
  unfolding operator_def by (induction t arbitrary: s) (simp_all add: counted_click)

lemma counted_await: "await ts s = (ts', s') \<Longrightarrow> counted s' = counted s"
  by (cases ts) (auto simp: counted_operator)

lemma counted_pausePoll: "pausePoll ts s = Some (ts', s') \<Longrightarrow> counted s' = counted s"
  by (induction ts arbitrary: s) (auto simp: counted_operator split: if_splits)

lemma counted_processItem:
  assumes "processItem w ts s = (ts', s')" and "counted s"
  shows "counted s'"
proof -
  obtain ts1 s1 where a1: "await ts (s\<lparr> classified := classified s @ [text_of w] \<rparr>) = (ts1, s1)"
    by (cases "await ts (s\<lparr> classified := classified s @ [text_of w] \<rparr>)")
  have c1: "counted s1"
    using counted_await [OF a1] assms(2) by (simp add: counted_def)
  show ?thesis
  proof (cases "classifier w")
    case (Inl err)
    with assms(1) a1 have "s' = onCatch (text_of w) s1"
      by (simp add: processItem_def)
    with c1 show ?thesis by (simp add: counted_def onCatch_def)
  next
    case (Inr r)
    obtain ts2 s2 where a2: "await ts1 (s1\<lparr> saved := saved s1 @ [r] \<rparr>) = (ts2, s2)"
      by (cases "await ts1 (s1\<lparr> saved := saved s1 @ [r] \<rparr>)")
    have c2: "counted s2"
      using counted_await [OF a2] c1 by (simp add: counted_def)
    from assms(1) a1 a2 Inr have "s' = onCatch (text_of w) s2 \<or> s' = onSuccess r s2"
      by (auto simp: processItem_def split: sum.splits)
    with c2 show ?thesis by (auto simp: counted_def onCatch_def onSuccess_def)
  qed
qed

lemma loop_stopped:
  "stopRef s \<Longrightarrow> loop (w # ws) ts s = \<lparr> ending = Returned, final = s, emitted = [] \<rparr>"
  by simp

lemma loop_polls_forever:
  "\<not> stopRef s \<Longrightarrow> pausePoll ts s = None \<Longrightarrow>
   loop (w # ws) ts s = \<lparr> ending = PollsForever, final = s, emitted = [] \<rparr>"
  by simp

lemma loop_step:
  "\<not> stopRef s \<Longrightarrow> pausePoll ts s = Some (ts1, s1) \<Longrightarrow>
   processItem w ts1 s1 = (ts2, s2) \<Longrightarrow> await ts2 s2 = (ts3, s3) \<Longrightarrow>
   loop (w # ws) ts s = (loop ws ts3 s3)\<lparr> emitted := s2 # emitted (loop ws ts3 s3) \<rparr>"
  by (simp add: Let_def)

lemma counted_loop:
  "counted s \<Longrightarrow> list_all counted (emitted (loop ws ts s))"
proof (induction ws arbitrary: ts s)
  case Nil
  then show ?case by simp
next
  case (Cons w ws)
  show ?case
  proof (cases "stopRef s")
    case True
    then show ?thesis by simp
  next
    case False
    show ?thesis
    proof (cases "pausePoll ts s")
      case None
      with False show ?thesis by simp
    next
      case (Some p)
      obtain ts1 s1 where p: "p = (ts1, s1)" by (cases p)
      obtain ts2 s2 where q: "processItem w ts1 s1 = (ts2, s2)" by (cases "processItem w ts1 s1")
      obtain ts3 s3 where a: "await ts2 s2 = (ts3, s3)" by (cases "await ts2 s2")
      have c1: "counted s1" using counted_pausePoll Some p Cons.prems by blast
      have c2: "counted s2" using counted_processItem [OF q c1] .
      have c3: "counted s3" using counted_await [OF a] c2 by simp
      from Some p have "pausePoll ts s = Some (ts1, s1)" by simp
      from loop_step [OF False this q a] c2 Cons.IH [OF c3, of ts3] show ?thesis by simp
    qed
  qed
qed

text \<open>
  C1. At every progress snapshot of a batch run, whatever the items, the classifier's and
  the store's answers and the operator's clicks, the success count plus the failure
  count equals the current count.
\<close>

theorem C1_success_plus_failed_is_current:
  "list_all (\<lambda>s. success (progress s) + failed (progress s) = current (progress s))
     (emitted (handleStart inputs ts s0))"
proof -
  let ?s = "s0\<lparr> displayResults := [], batchAnnotations := [], latestResult := None,
      progress := \<lparr> current = 0, total = length inputs, success = 0, failed = 0 \<rparr>,
      isProcessing := True, stopRef := False, pauseRef := False, isPaused := False \<rparr>"
  have "counted ?s" by (simp add: counted_def)
  then have "list_all counted (emitted (loop inputs ts ?s))" by (rule counted_loop)
  moreover have "emitted (handleStart inputs ts s0) = emitted (loop inputs ts ?s)"
    by (simp add: handleStart_def processQueue_def Let_def split: ending.splits)
  ultimately show ?thesis by (simp add: counted_def [abs_def])
qed

lemma data_click: "data (click a s) = data s"
  by (cases a) (simp_all add: data_def togglePause_def handleStop_def)

lemma data_operator: "data (operator t s) = data s"
  unfolding operator_def by (induction t arbitrary: s) (simp_all add: data_click)

lemma data_await: "await ts s = (ts', s') \<Longrightarrow> data s' = data s"
  by (cases ts) (auto simp: data_operator)

lemma data_pausePoll: "pausePoll ts s = Some (ts', s') \<Longrightarrow> data s' = data s"
  by (induction ts arbitrary: s) (auto simp: data_operator split: if_splits)

lemma saveRecord_returns: "\<exists>d. saveRecord r io = Inr d"
  by (simp add: saveRecord_def split: sum.splits)

lemma data_settle: "data (settle w s) = settle w (data s)"
  by (simp add: data_def settle_def onCatch_def onSuccess_def split: sum.splits)

lemma data_idem: "data (data s) = data s"
  by (simp add: data_def)

lemma data_processItem:
  assumes "processItem w ts s = (ts', s')"
  shows "data s' = settle w (data s)"
proof -
  obtain ts1 s1 where a1: "await ts (s\<lparr> classified := classified s @ [text_of w] \<rparr>) = (ts1, s1)"
    by (cases "await ts (s\<lparr> classified := classified s @ [text_of w] \<rparr>)")
  have d1: "data s1 = (data s)\<lparr> classified := classified s @ [text_of w] \<rparr>"
    using data_await [OF a1] by (simp add: data_def)
  show ?thesis
  proof (cases "classifier w")
    case (Inl err)
    with assms a1 have "s' = onCatch (text_of w) s1"
      by (simp add: processItem_def)
    then have "data s' = onCatch (text_of w) (data s1)"
      by (simp add: data_def onCatch_def)
    with d1 Inl show ?thesis by (simp add: settle_def data_def)
  next
    case (Inr r)
    obtain ts2 s2 where a2: "await ts1 (s1\<lparr> saved := saved s1 @ [r] \<rparr>) = (ts2, s2)"
      by (cases "await ts1 (s1\<lparr> saved := saved s1 @ [r] \<rparr>)")
    have sv1: "saved s1 = saved s"
      using arg_cong [OF d1, of saved] by (simp add: data_def)
    have d2: "data s2 = (data s1)\<lparr> saved := saved s @ [r] \<rparr>"
      using data_await [OF a2] sv1 by (simp add: data_def)
    obtain d where sv: "saveRecord r (store w) = Inr d"
      using saveRecord_returns by blast
    from assms a1 a2 Inr sv have "s' = onSuccess r s2"
      by (simp add: processItem_def)
    then have "data s' = onSuccess r (data s2)"
      by (simp add: data_def onSuccess_def)
    with d1 d2 Inr show ?thesis by (simp add: settle_def data_def)
  qed
qed

lemma loop_data:
  "map data (emitted (loop ws ts s)) = take (length (emitted (loop ws ts s))) (settled ws (data s)) \<and>
   data (final (loop ws ts s)) = fold settle (take (length (emitted (loop ws ts s))) ws) (data s)"
proof (induction ws arbitrary: ts s)
  case Nil
  then show ?case by simp
next
  case (Cons w ws)
  show ?case
  proof (cases "stopRef s")
    case True
    then show ?thesis by simp
  next
    case False
    show ?thesis
    proof (cases "pausePoll ts s")
      case None
      with False show ?thesis by simp
    next
      case (Some p)
      obtain ts1 s1 where p: "pausePoll ts s = Some (ts1, s1)" using Some by (cases p) simp
      obtain ts2 s2 where q: "processItem w ts1 s1 = (ts2, s2)" by (cases "processItem w ts1 s1")
      obtain ts3 s3 where a: "await ts2 s2 = (ts3, s3)" by (cases "await ts2 s2")
      have d2: "data s2 = settle w (data s)"
        using data_processItem [OF q] data_pausePoll [OF p] by simp
      have d3: "data s3 = settle w (data s)"
        using data_await [OF a] d2 by simp
      from loop_step [OF False p q a] d2 d3 Cons.IH [of ts3 s3] show ?thesis by simp
    qed
  qed
qed

lemma settle_fields:
  "classified (settle w s) = classified s @ [text_of w]"
  "current (progress (settle w s)) = current (progress s) + 1"
  "total (progress (settle w s)) = total (progress s)"
  "failed (progress (settle w s)) = failed (progress s) + (if throws w then 1 else 0)"
  "success (progress (settle w s)) = success (progress s) + (if throws w then 0 else 1)"
  "saved (settle w s) = saved s @ persisted [w]"
  "displayResults (settle w s) = take MAX_DISPLAY_HISTORY (shown w # displayResults s)"
  "completed (settle w s) = completed s"
  by (simp_all add: settle_def onCatch_def onSuccess_def throws_def persisted_def shown_def
      split: sum.splits)

lemma take_append_take: "take n (xs @ take n ys) = take n (xs @ ys)"
  by (simp add: min_def)

lemma fold_settle_fields:
  "classified (fold settle ws s) = classified s @ map text_of ws"
  "current (progress (fold settle ws s)) = current (progress s) + length ws"
  "total (progress (fold settle ws s)) = total (progress s)"
  "failed (progress (fold settle ws s)) = failed (progress s) + length (filter throws ws)"
  "success (progress (fold settle ws s)) = success (progress s) + length (filter (\<lambda>w. \<not> throws w) ws)"
  "saved (fold settle ws s) = saved s @ persisted ws"
  "completed (fold settle ws s) = completed s"
  by (induction ws arbitrary: s; simp add: settle_fields persisted_def)+

lemma fold_settle_display:
  "length (displayResults s) \<le> MAX_DISPLAY_HISTORY \<Longrightarrow>
   displayResults (fold settle ws s) =
     take MAX_DISPLAY_HISTORY (rev (map shown ws) @ displayResults s)"
proof (induction ws arbitrary: s)
  case Nil
  then show ?case by simp
next
  case (Cons w ws)
  have "length (displayResults (settle w s)) \<le> MAX_DISPLAY_HISTORY"
    by (simp add: settle_fields)
  from Cons.IH [OF this] show ?case
    by (simp add: settle_fields take_append_take)
qed

lemma length_settled: "length (settled ws s) = length ws"
  by (induction ws arbitrary: s) simp_all

lemma nth_settled: "i < length ws \<Longrightarrow> settled ws s ! i = fold settle (take (Suc i) ws) s"
proof (induction ws arbitrary: s i)
  case Nil
  then show ?case by simp
next
  case (Cons w ws)
  then show ?case by (cases i) simp_all
qed

lemma toggles_Nil [simp]: "toggles [] = 0"
  by (simp add: toggles_def)

lemma toggles_Cons:
  "toggles (t # ts) = length (filter (\<lambda>a. a = TogglePause) t) + toggles ts"
  by (simp add: toggles_def)

lemma calm_operator:
  "\<not> stopRef s \<Longrightarrow> Stop \<notin> set t \<Longrightarrow> \<not> stopRef (operator t s)"
  unfolding operator_def
proof (induction t arbitrary: s)
  case Nil
  then show ?case by simp
next
  case (Cons a t)
  from Cons.prems have "a = TogglePause" by (cases a) simp_all
  with Cons.prems have "\<not> stopRef (click a s)" by (simp add: togglePause_def)
  with Cons show ?case by simp
qed

lemma calm_await: "calm ts s \<Longrightarrow> await ts s = (ts', s') \<Longrightarrow> calm ts' s'"
  by (cases ts) (auto simp: calm_def calm_operator)

lemma calm_pausePoll:
  "calm ts s \<Longrightarrow> pausePoll ts s = Some (ts', s') \<Longrightarrow> calm ts' s'"
proof (induction ts arbitrary: s)
  case Nil
  then show ?case by (simp split: if_splits)
next
  case (Cons t ts)
  show ?case
  proof (cases "pauseRef s \<and> \<not> stopRef s")
    case True
    have "calm ts (operator t s)"
      using Cons.prems(1) by (simp add: calm_def calm_operator)
    moreover have "pausePoll ts (operator t s) = Some (ts', s')"
      using Cons.prems(2) True by simp
    ultimately show ?thesis by (rule Cons.IH)
  next
    case False
    with Cons.prems show ?thesis by auto
  qed
qed

lemma calm_update:
  "calm ts (s\<lparr> classified := c \<rparr>) = calm ts s"
  "calm ts (s\<lparr> saved := v \<rparr>) = calm ts s"
  "calm ts (onCatch txt s) = calm ts s"
  "calm ts (onSuccess r s) = calm ts s"
  by (simp_all add: calm_def onCatch_def onSuccess_def)

lemma calm_processItem:
  assumes "calm ts s" and "processItem w ts s = (ts', s')"
  shows "calm ts' s'"
proof -
  obtain ts1 s1 where a1: "await ts (s\<lparr> classified := classified s @ [text_of w] \<rparr>) = (ts1, s1)"
    by (cases "await ts (s\<lparr> classified := classified s @ [text_of w] \<rparr>)")
  have c1: "calm ts1 s1"
    using calm_await [OF _ a1] assms(1) by (simp add: calm_update)
  show ?thesis
  proof (cases "classifier w")
    case (Inl err)
    with assms(2) a1 have "ts' = ts1 \<and> s' = onCatch (text_of w) s1"
      by (auto simp: processItem_def)
    with c1 show ?thesis by (simp add: calm_update)
  next
    case (Inr r)
    obtain ts2 s2 where a2: "await ts1 (s1\<lparr> saved := saved s1 @ [r] \<rparr>) = (ts2, s2)"
      by (cases "await ts1 (s1\<lparr> saved := saved s1 @ [r] \<rparr>)")
    have c2: "calm ts2 s2"
      using calm_await [OF _ a2] c1 by (simp add: calm_update)
    from assms(2) a1 a2 Inr
    have "ts' = ts2 \<and> (s' = onCatch (text_of w) s2 \<or> s' = onSuccess r s2)"
      by (auto simp: processItem_def split: sum.splits)
    with c2 show ?thesis by (auto simp: calm_update)
  qed
qed

lemma calm_loop:
  "calm ts s \<Longrightarrow> ending (loop ws ts s) = Returned \<Longrightarrow>
   length (emitted (loop ws ts s)) = length ws"
proof (induction ws arbitrary: ts s)
  case Nil
  then show ?case by simp
next
  case (Cons w ws)
  have ns: "\<not> stopRef s" using Cons.prems(1) by (simp add: calm_def)
  show ?case
  proof (cases "pausePoll ts s")
    case None
    with ns Cons.prems(2) show ?thesis by simp
  next
    case (Some p)
    obtain ts1 s1 where p: "pausePoll ts s = Some (ts1, s1)" using Some by (cases p) simp
    obtain ts2 s2 where q: "processItem w ts1 s1 = (ts2, s2)" by (cases "processItem w ts1 s1")
    obtain ts3 s3 where a: "await ts2 s2 = (ts3, s3)" by (cases "await ts2 s2")
    have c3: "calm ts3 s3"
      using calm_await [OF calm_processItem [OF calm_pausePoll [OF Cons.prems(1) p] q] a] .
    have eq: "loop (w # ws) ts s = (loop ws ts3 s3)\<lparr> emitted := s2 # emitted (loop ws ts3 s3) \<rparr>"
      using loop_step [OF ns p q a] .
    with Cons.prems(2) have "ending (loop ws ts3 s3) = Returned" by simp
    from Cons.IH [OF c3 this] eq show ?thesis by simp
  qed
qed

lemma steady_operator:
  assumes "isProcessing s" "\<not> stopRef s" "pauseRef s = isPaused s" "Stop \<notin> set t"
  shows "isProcessing (operator t s) \<and> \<not> stopRef (operator t s) \<and>
         pauseRef (operator t s) = isPaused (operator t s) \<and>
         pauseRef (operator t s) = (pauseRef s \<noteq> odd (length (filter (\<lambda>a. a = TogglePause) t)))"
  using assms unfolding operator_def
proof (induction t arbitrary: s)
  case Nil
  then show ?case by simp
next
  case (Cons a t)
  from Cons.prems have a: "a = TogglePause" by (cases a) simp_all
  have "isProcessing (click a s)" "\<not> stopRef (click a s)"
    "pauseRef (click a s) = isPaused (click a s)" "pauseRef (click a s) = (\<not> pauseRef s)"
    using Cons.prems a by (simp_all add: togglePause_def)
  with Cons.IH [of "click a s"] Cons.prems(4) a show ?case by auto
qed

lemma steady_await: "steady ts s \<Longrightarrow> await ts s = (ts', s') \<Longrightarrow> steady ts' s'"
proof (cases ts)
  case Nil
  assume "steady ts s" "await ts s = (ts', s')"
  with Nil show ?thesis by auto
next
  case (Cons t tr)
  assume st: "steady ts s" and aw: "await ts s = (ts', s')"
  from st Cons have "isProcessing s" "\<not> stopRef s" "pauseRef s = isPaused s" "Stop \<notin> set t"
    by (simp_all add: steady_def)
  from steady_operator [OF this] st Cons aw show ?thesis
    by (auto simp: steady_def toggles_Cons)
qed

lemma steady_pausePoll:
  "steady ts s \<Longrightarrow> \<exists>ts' s'. pausePoll ts s = Some (ts', s') \<and> steady ts' s' \<and> \<not> pauseRef s'"
proof (induction ts arbitrary: s)
  case Nil
  then show ?case by (auto simp: steady_def)
next
  case (Cons t ts)
  show ?case
  proof (cases "pauseRef s")
    case True
    obtain ts1 s1 where a: "await (t # ts) s = (ts1, s1)" by (cases "await (t # ts) s")
    from steady_await [OF Cons.prems a] a have "steady ts (operator t s)" by simp
    from Cons.IH [OF this] True Cons.prems show ?thesis by (auto simp: steady_def)
  next
    case False
    with Cons.prems show ?thesis by auto
  qed
qed

lemma steady_update:
  "steady ts (s\<lparr> classified := c \<rparr>) = steady ts s"
  "steady ts (s\<lparr> saved := v \<rparr>) = steady ts s"
  "steady ts (onCatch txt s) = steady ts s"
  "steady ts (onSuccess r s) = steady ts s"
  by (simp_all add: steady_def onCatch_def onSuccess_def)

lemma steady_processItem:
  assumes "steady ts s" and "processItem w ts s = (ts', s')"
  shows "steady ts' s'"
proof -
  obtain ts1 s1 where a1: "await ts (s\<lparr> classified := classified s @ [text_of w] \<rparr>) = (ts1, s1)"
    by (cases "await ts (s\<lparr> classified := classified s @ [text_of w] \<rparr>)")
  have c1: "steady ts1 s1"
    using steady_await [OF _ a1] assms(1) by (simp add: steady_update)
  show ?thesis
  proof (cases "classifier w")
    case (Inl err)
    with assms(2) a1 have "ts' = ts1 \<and> s' = onCatch (text_of w) s1"
      by (auto simp: processItem_def)
    with c1 show ?thesis by (simp add: steady_update)
  next
    case (Inr r)
    obtain ts2 s2 where a2: "await ts1 (s1\<lparr> saved := saved s1 @ [r] \<rparr>) = (ts2, s2)"
      by (cases "await ts1 (s1\<lparr> saved := saved s1 @ [r] \<rparr>)")
    have c2: "steady ts2 s2"
      using steady_await [OF _ a2] c1 by (simp add: steady_update)
    from assms(2) a1 a2 Inr
    have "ts' = ts2 \<and> (s' = onCatch (text_of w) s2 \<or> s' = onSuccess r s2)"
      by (auto simp: processItem_def split: sum.splits)
    with c2 show ?thesis by (auto simp: steady_update)
  qed
qed

lemma steady_loop: "steady ts s \<Longrightarrow> ending (loop ws ts s) = Returned"
proof (induction ws arbitrary: ts s)
  case Nil
  then show ?case by simp
next
  case (Cons w ws)
  have ns: "\<not> stopRef s" using Cons.prems by (simp add: steady_def)
  obtain ts1 s1 where p: "pausePoll ts s = Some (ts1, s1)" and st1: "steady ts1 s1"
    using steady_pausePoll [OF Cons.prems] by blast
  obtain ts2 s2 where q: "processItem w ts1 s1 = (ts2, s2)" by (cases "processItem w ts1 s1")
  obtain ts3 s3 where a: "await ts2 s2 = (ts3, s3)" by (cases "await ts2 s2")
  have "steady ts3 s3"
    using steady_await [OF steady_processItem [OF st1 q] a] .
  from Cons.IH [OF this] loop_step [OF ns p q a] show ?case by simp
qed

lemma handleStart_loop:
  "emitted (handleStart inputs ts s0) = emitted (loop inputs ts (begun inputs s0))"
  "ending (handleStart inputs ts s0) = ending (loop inputs ts (begun inputs s0))"
  "final (handleStart inputs ts s0) =
     (case ending (loop inputs ts (begun inputs s0)) of
        PollsForever \<Rightarrow> final (loop inputs ts (begun inputs s0))
      | Returned \<Rightarrow> (final (loop inputs ts (begun inputs s0)))
           \<lparr> isProcessing := False,
             completed := completed (final (loop inputs ts (begun inputs s0))) + 1 \<rparr>)"
  by (simp_all add: handleStart_def processQueue_def begun_def Let_def split: ending.splits)

lemma data_fields:
  "progress (data s) = progress s"
  "displayResults (data s) = displayResults s"
  "batchAnnotations (data s) = batchAnnotations s"
  "latestResult (data s) = latestResult s"
  "classified (data s) = classified s"
  "saved (data s) = saved s"
  "completed (data s) = completed s"
  by (simp_all add: data_def)

lemma begun_fields:
  "progress (begun inputs s0) = \<lparr> current = 0, total = length inputs, success = 0, failed = 0 \<rparr>"
  "displayResults (begun inputs s0) = []"
  "classified (begun inputs s0) = classified s0"
  "saved (begun inputs s0) = saved s0"
  "completed (begun inputs s0) = completed s0"
  by (simp_all add: begun_def)

lemma steady_begun:
  "Stop \<notin> set (concat ts) \<Longrightarrow> even (toggles ts) \<Longrightarrow> steady ts (begun inputs s0)"
  by (simp add: steady_def begun_def)

lemma calm_begun: "Stop \<notin> set (concat ts) \<Longrightarrow> calm ts (begun inputs s0)"
  by (simp add: calm_def begun_def)

lemma emitted_le: "length (emitted (loop ws ts s)) \<le> length ws"
proof -
  have "length (map data (emitted (loop ws ts s))) =
        length (take (length (emitted (loop ws ts s))) (settled ws (data s)))"
    using loop_data [of ws ts s] by simp
  then show ?thesis by (simp add: length_settled)
qed

lemma emitted_nth:
  assumes "i < length (emitted (loop ws ts s))"
  shows "data (emitted (loop ws ts s) ! i) = fold settle (take (Suc i) ws) (data s)"
proof -
  have i: "i < length ws" using assms emitted_le [of ws ts s] by simp
  have "data (emitted (loop ws ts s) ! i) = map data (emitted (loop ws ts s)) ! i"
    using assms by simp
  also have "\<dots> = take (length (emitted (loop ws ts s))) (settled ws (data s)) ! i"
    using loop_data [of ws ts s] by simp
  also have "\<dots> = settled ws (data s) ! i" using assms by simp
  also have "\<dots> = fold settle (take (Suc i) ws) (data s)" using i by (rule nth_settled)
  finally show ?thesis .
qed

lemma complete_run:
  assumes "Stop \<notin> set (concat ts)" and "ending (loop ws ts (begun ws s0)) = Returned"
  shows "data (final (loop ws ts (begun ws s0))) = fold settle ws (data (begun ws s0))"
    and "map data (emitted (loop ws ts (begun ws s0))) = settled ws (data (begun ws s0))"
proof -
  have n: "length (emitted (loop ws ts (begun ws s0))) = length ws"
    using calm_loop [OF calm_begun [OF assms(1)] assms(2)] .
  show "data (final (loop ws ts (begun ws s0))) = fold settle ws (data (begun ws s0))"
    using loop_data [of ws ts "begun ws s0"] n by simp
  show "map data (emitted (loop ws ts (begun ws s0))) = settled ws (data (begun ws s0))"
    using loop_data [of ws ts "begun ws s0"] n by (simp add: length_settled)
qed

lemma settled_current:
  "map (\<lambda>s. current (progress s)) (settled ws s) =
   map (\<lambda>i. current (progress s) + i) [1..<Suc (length ws)]"
proof (induction ws arbitrary: s)
  case Nil
  then show ?case by simp
next
  case (Cons w ws)
  have "[1..<Suc (Suc (length ws))] = 1 # map Suc [1..<Suc (length ws)]"
    by (simp add: upt_conv_Cons map_Suc_upt del: upt_Suc)
  then show ?case
    by (simp add: Cons.IH settle_fields comp_def del: upt_Suc)
qed

lemma map_current_data:
  "map (\<lambda>s. current (progress s)) xs = map (\<lambda>s. current (progress s)) (map data xs)"
  by (simp add: data_fields comp_def)

lemma processItem_fields:
  assumes "processItem w ts s = (ts', s')"
  shows "progress s' = progress (settle w s)"
    and "displayResults s' = displayResults (settle w s)"
    and "saved s' = saved (settle w s)"
    and "classified s' = classified (settle w s)"
proof -
  have d: "data s' = data (settle w s)"
    using data_processItem [OF assms] by (simp add: data_settle)
  show "progress s' = progress (settle w s)"
    using arg_cong [OF d, of progress] by (simp add: data_fields)
  show "displayResults s' = displayResults (settle w s)"
    using arg_cong [OF d, of displayResults] by (simp add: data_fields)
  show "saved s' = saved (settle w s)"
    using arg_cong [OF d, of saved] by (simp add: data_fields)
  show "classified s' = classified (settle w s)"
    using arg_cong [OF d, of classified] by (simp add: data_fields)
qed

lemma run_totals:
  assumes ns: "Stop \<notin> set (concat ts)" and ev: "even (toggles ts)"
  shows "ending (handleStart inputs ts s0) = Returned"
    and "classified (final (handleStart inputs ts s0)) = classified s0 @ map text_of inputs"
    and "saved (final (handleStart inputs ts s0)) = saved s0 @ persisted inputs"
    and "progress (final (handleStart inputs ts s0)) =
          \<lparr> current = length inputs, total = length inputs,
            success = length (filter (\<lambda>w. \<not> throws w) inputs),
            failed = length (filter throws inputs) \<rparr>"
proof -
  let ?b = "begun inputs s0"
  let ?r = "loop inputs ts ?b"
  have ret: "ending ?r = Returned"
    using steady_loop [OF steady_begun [OF ns ev]] .
  have fin: "data (final ?r) = fold settle inputs (data ?b)"
    using complete_run [OF ns ret] by simp
  have f: "final (handleStart inputs ts s0) =
           (final ?r)\<lparr> isProcessing := False, completed := completed (final ?r) + 1 \<rparr>"
    using ret by (simp add: handleStart_loop)
  show "ending (handleStart inputs ts s0) = Returned"
    using ret by (simp add: handleStart_loop)
  show "classified (final (handleStart inputs ts s0)) = classified s0 @ map text_of inputs"
    using arg_cong [OF fin, of classified] f
    by (simp add: data_fields fold_settle_fields begun_fields)
  show "saved (final (handleStart inputs ts s0)) = saved s0 @ persisted inputs"
    using arg_cong [OF fin, of saved] f
    by (simp add: data_fields fold_settle_fields begun_fields)
  have "progress (final ?r) = progress (fold settle inputs (data ?b))"
    using arg_cong [OF fin, of progress] by (simp add: data_fields)
  moreover have "progress (fold settle inputs (data ?b)) =
      \<lparr> current = current (progress (fold settle inputs (data ?b))),
        total = total (progress (fold settle inputs (data ?b))),
        success = success (progress (fold settle inputs (data ?b))),
        failed = failed (progress (fold settle inputs (data ?b))) \<rparr>"
    by simp
  ultimately show "progress (final (handleStart inputs ts s0)) =
          \<lparr> current = length inputs, total = length inputs,
            success = length (filter (\<lambda>w. \<not> throws w) inputs),
            failed = length (filter throws inputs) \<rparr>"
    using f by (simp add: fold_settle_fields data_fields begun_fields)
qed

lemma run_length:
  assumes ns: "Stop \<notin> set (concat ts)" and ev: "even (toggles ts)"
  shows "length (emitted (handleStart inputs ts s0)) = length inputs"
proof -
  have "ending (loop inputs ts (begun inputs s0)) = Returned"
    using steady_loop [OF steady_begun [OF ns ev]] .
  from calm_loop [OF calm_begun [OF ns] this] show ?thesis
    by (simp add: handleStart_loop)
qed

lemma saveRecord_case: "(case saveRecord r io of Inl err \<Rightarrow> a | Inr d \<Rightarrow> b) = b"
  by (simp add: saveRecord_def split: sum.splits)

lemma processItem_alt:
  "processItem w ts s =
     (let (ts1, s1) = await ts (s\<lparr> classified := classified s @ [text_of w] \<rparr>) in
      case classifier w of
        Inl err \<Rightarrow> (ts1, onCatch (text_of w) s1)
      | Inr r \<Rightarrow>
          (let (ts2, s2) = await ts1 (s1\<lparr> saved := saved s1 @ [r] \<rparr>) in (ts2, onSuccess r s2)))"
  by (simp add: processItem_def saveRecord_case Let_def split: prod.splits sum.splits)

lemma processItem_store_irrelevant:
  assumes "text_of w = text_of w'" and "classifier w = classifier w'"
  shows "processItem w ts s = processItem w' ts s"
  by (simp add: processItem_alt assms Let_def split: prod.splits sum.splits)

lemma loop_store_irrelevant:
  "map text_of ws = map text_of ws' \<Longrightarrow> map classifier ws = map classifier ws' \<Longrightarrow>
   loop ws ts s = loop ws' ts s"
proof (induction ws arbitrary: ws' ts s)
  case Nil
  then show ?case by simp
next
  case (Cons w ws)
  from Cons.prems(1) obtain w' ws1 where ws': "ws' = w' # ws1"
    by (cases ws') simp_all
  with Cons.prems have t: "text_of w = text_of w'" and c: "classifier w = classifier w'"
    and r1: "map text_of ws = map text_of ws1" and r2: "map classifier ws = map classifier ws1"
    by simp_all
  have ih: "\<And>ts s. loop ws ts s = loop ws1 ts s"
    using Cons.IH [OF r1 r2] .
  show ?case
    unfolding ws'
    by (simp add: processItem_store_irrelevant [OF t c] ih Let_def
        split: option.splits prod.splits)
qed

text \<open>
  C2. For every batch of N items, when the operator clicks neither stop nor pause, the
  loop returns, it has passed every item to the classifier in submission order, the
  current count goes through 1, 2, ..., N and ends at N (the total), the component has
  left the processing state, and \<open>onComplete\<close> has been called once.
\<close>

theorem C2_batch_completes:
  assumes "concat ts = []"
  shows "ending (handleStart inputs ts s0) = Returned \<and>
         classified (final (handleStart inputs ts s0)) = classified s0 @ map text_of inputs \<and>
         map (\<lambda>s. current (progress s)) (emitted (handleStart inputs ts s0)) =
           [1..<Suc (length inputs)] \<and>
         current (progress (final (handleStart inputs ts s0))) = length inputs \<and>
         total (progress (final (handleStart inputs ts s0))) = length inputs \<and>
         \<not> isProcessing (final (handleStart inputs ts s0)) \<and>
         completed (final (handleStart inputs ts s0)) = completed s0 + 1"
proof -
  let ?b = "begun inputs s0"
  let ?r = "loop inputs ts ?b"
  have ns: "Stop \<notin> set (concat ts)" and ev: "even (toggles ts)"
    unfolding toggles_def assms by simp_all
  have ret: "ending ?r = Returned"
    using steady_loop [OF steady_begun [OF ns ev]] .
  have fin: "data (final ?r) = fold settle inputs (data ?b)"
    and em: "map data (emitted ?r) = settled inputs (data ?b)"
    using complete_run [OF ns ret] by simp_all
  have f: "final (handleStart inputs ts s0) =
           (final ?r)\<lparr> isProcessing := False, completed := completed (final ?r) + 1 \<rparr>"
    using ret by (simp add: handleStart_loop)
  have c1: "classified (final ?r) = classified s0 @ map text_of inputs"
    using arg_cong [OF fin, of classified]
    by (simp add: data_fields fold_settle_fields begun_fields)
  have c2: "progress (final ?r) = progress (fold settle inputs (data ?b))"
    using arg_cong [OF fin, of progress] by (simp add: data_fields)
  have c3: "completed (final ?r) = completed s0"
    using arg_cong [OF fin, of completed]
    by (simp add: data_fields fold_settle_fields begun_fields)
  have c4: "map (\<lambda>s. current (progress s)) (emitted ?r) = [1..<Suc (length inputs)]"
    using map_current_data [of "emitted ?r"] em
    by (simp add: settled_current data_fields begun_fields del: upt_Suc)
  show ?thesis
    using ret c1 c2 c3 c4 f
    by (simp add: handleStart_loop fold_settle_fields data_fields begun_fields del: upt_Suc)
qed

theorem C2_witness:
  "concat [[], []] = ([] :: action list) \<and>
   ending (handleStart three_items [[], []] initial_state) = Returned \<and>
   classified (final (handleStart three_items [[], []] initial_state)) =
     [lit ''He go school.'', lit ''She is happy.'', lit ''Fine.''] \<and>
   map (\<lambda>s. current (progress s)) (emitted (handleStart three_items [[], []] initial_state)) =
     [1, 2, 3] \<and>
   current (progress (final (handleStart three_items [[], []] initial_state))) = 3 \<and>
   completed (final (handleStart three_items [[], []] initial_state)) = 1"
proof -
  have h: "concat [[], []] = ([] :: action list)" by simp
  have l: "length three_items = 3" by (simp add: three_items_def)
  have u: "[1..<Suc 3] = [1, 2, 3]" by (simp add: upt_rec)
  have c: "classified initial_state @ map text_of three_items =
       [lit ''He go school.'', lit ''She is happy.'', lit ''Fine.'']"
    by (simp add: initial_state_def three_items_def sample_ok_def sample_fatal_def)
  have z: "completed initial_state = 0" by (simp add: initial_state_def)
  from C2_batch_completes [OF h, of three_items initial_state] show ?thesis
    unfolding l u c z by simp
qed

text \<open>
  C3. When the classifier throws on an item, the iteration shows a placeholder whose
  \<open>original_text\<close> is the input text, whose \<open>corrected_text\<close> is
  "Error processing this item." and whose annotations are empty; nothing is passed to
  \<open>saveRecord\<close>, the failure count grows by one and the success count stays. The loop
  goes on: in every run without a stop in which each pause is resumed, all items are
  passed to the classifier, whichever of them fail, and the final failure and success
  counts are the numbers of items on which the classifier throws and returns.
\<close>

theorem C3_failed_item_is_isolated:
  "(classifier w = Inl err \<and> processItem w ts s = (ts', s') \<longrightarrow>
      displayResults s' =
        take 100 (\<lparr> original_text = text_of w,
                    corrected_text = lit ''Error processing this item.'',
                    annotations = [] \<rparr> # displayResults s) \<and>
      saved s' = saved s \<and>
      failed (progress s') = failed (progress s) + 1 \<and>
      success (progress s') = success (progress s) \<and>
      current (progress s') = current (progress s) + 1) \<and>
   (Stop \<notin> set (concat ts) \<and> even (toggles ts) \<longrightarrow>
      ending (handleStart inputs ts s0) = Returned \<and>
      classified (final (handleStart inputs ts s0)) = classified s0 @ map text_of inputs \<and>
      saved (final (handleStart inputs ts s0)) = saved s0 @ persisted inputs \<and>
      failed (progress (final (handleStart inputs ts s0))) = length (filter throws inputs) \<and>
      success (progress (final (handleStart inputs ts s0))) =
        length (filter (\<lambda>w. \<not> throws w) inputs))"
proof (intro conjI impI)
  assume a: "classifier w = Inl err \<and> processItem w ts s = (ts', s')"
  then have p: "processItem w ts s = (ts', s')" and c: "classifier w = Inl err" by simp_all
  have t: "throws w" using c by (simp add: throws_def)
  have sh: "shown w = \<lparr> original_text = text_of w,
                    corrected_text = lit ''Error processing this item.'',
                    annotations = [] \<rparr>"
    using c by (simp add: shown_def errorResult_def)
  show "displayResults s' =
        take 100 (\<lparr> original_text = text_of w,
                    corrected_text = lit ''Error processing this item.'',
                    annotations = [] \<rparr> # displayResults s)"
    using processItem_fields(2) [OF p] sh
    by (simp add: settle_fields MAX_DISPLAY_HISTORY_def)
  show "saved s' = saved s"
    using processItem_fields(3) [OF p] c by (simp add: settle_fields persisted_def)
  show "failed (progress s') = failed (progress s) + 1"
    using processItem_fields(1) [OF p] t by (simp add: settle_fields)
  show "success (progress s') = success (progress s)"
    using processItem_fields(1) [OF p] t by (simp add: settle_fields)
  show "current (progress s') = current (progress s) + 1"
    using processItem_fields(1) [OF p] by (simp add: settle_fields)
next
  assume a: "Stop \<notin> set (concat ts) \<and> even (toggles ts)"
  then have ns: "Stop \<notin> set (concat ts)" and ev: "even (toggles ts)" by simp_all
  show "ending (handleStart inputs ts s0) = Returned"
    using run_totals(1) [OF ns ev] .
  show "classified (final (handleStart inputs ts s0)) = classified s0 @ map text_of inputs"
    using run_totals(2) [OF ns ev] .
  show "saved (final (handleStart inputs ts s0)) = saved s0 @ persisted inputs"
    using run_totals(3) [OF ns ev] .
  show "failed (progress (final (handleStart inputs ts s0))) = length (filter throws inputs)"
    using run_totals(4) [OF ns ev, of inputs s0] by simp
  show "success (progress (final (handleStart inputs ts s0))) =
        length (filter (\<lambda>w. \<not> throws w) inputs)"
    using run_totals(4) [OF ns ev, of inputs s0] by simp
qed

theorem C3_witness:
  "classifier (sample_fatal ''x'') =
     Inl \<lparr> message = Some (lit ''API URL is missing''), status = None \<rparr> \<and>
   processItem (sample_fatal ''x'') [] initial_state =
     ([], onCatch (lit ''x'') (initial_state\<lparr> classified := [lit ''x''] \<rparr>)) \<and>
   displayResults (onCatch (lit ''x'') (initial_state\<lparr> classified := [lit ''x''] \<rparr>)) =
     [\<lparr> original_text = lit ''x'', corrected_text = lit ''Error processing this item.'',
        annotations = [] \<rparr>] \<and>
   Stop \<notin> set (concat ([] :: tick list)) \<and> even (toggles []) \<and>
   ending (handleStart three_items [] initial_state) = Returned \<and>
   failed (progress (final (handleStart three_items [] initial_state))) = 1 \<and>
   success (progress (final (handleStart three_items [] initial_state))) = 2"
proof -
  let ?w = "sample_fatal ''x''"
  let ?s' = "onCatch (lit ''x'') (initial_state\<lparr> classified := [lit ''x''] \<rparr>)"
  have h1: "classifier ?w = Inl \<lparr> message = Some (lit ''API URL is missing''), status = None \<rparr>"
    by (simp add: sample_fatal_def)
  have h2: "processItem ?w [] initial_state = ([], ?s')"
    by (simp add: processItem_def sample_fatal_def initial_state_def)
  have h3: "Stop \<notin> set (concat ([] :: tick list)) \<and> even (toggles [])"
    by (simp add: toggles_def)
  have d: "take 100 (\<lparr> original_text = text_of ?w,
        corrected_text = lit ''Error processing this item.'', annotations = [] \<rparr>
        # displayResults initial_state) =
     [\<lparr> original_text = lit ''x'', corrected_text = lit ''Error processing this item.'',
        annotations = [] \<rparr>]"
    by (simp add: sample_fatal_def initial_state_def)
  have f: "length (filter throws three_items) = 1"
    "length (filter (\<lambda>w. \<not> throws w) three_items) = 2"
    by (simp_all add: three_items_def throws_def sample_ok_def sample_fatal_def)
  from C3_failed_item_is_isolated
    [of ?w "\<lparr> message = Some (lit ''API URL is missing''), status = None \<rparr>"
        "[]" initial_state "[]" ?s' three_items initial_state]
    h1 h2 h3
  show ?thesis unfolding d f by simp
qed

text \<open>
  Stop requests. A stop seen at the top of the loop ends the run at once. A stop that
  arrives while the loop polls in a pause ends the polling, and the item the loop was
  waiting to start is still classified, saved and counted; the run ends at the next
  check at the top of the loop.
\<close>

lemma stop_at_top_of_loop:
  "stopRef s \<Longrightarrow> loop ws ts s = \<lparr> ending = Returned, final = s, emitted = [] \<rparr>"
  by (cases ws) simp_all

lemma stopRef_click: "stopRef s \<Longrightarrow> stopRef (click a s)"
  by (cases a) (simp_all add: togglePause_def handleStop_def)

lemma stopRef_operator: "stopRef s \<Longrightarrow> stopRef (operator t s)"
  unfolding operator_def by (induction t arbitrary: s) (simp_all add: stopRef_click)

lemma stopRef_await: "stopRef s \<Longrightarrow> await ts s = (ts', s') \<Longrightarrow> stopRef s'"
  by (cases ts) (auto simp: stopRef_operator)

lemma stopRef_processItem:
  assumes "stopRef s" and "processItem w ts s = (ts', s')"
  shows "stopRef s'"
proof -
  obtain ts1 s1 where a1: "await ts (s\<lparr> classified := classified s @ [text_of w] \<rparr>) = (ts1, s1)"
    by (cases "await ts (s\<lparr> classified := classified s @ [text_of w] \<rparr>)")
  have c1: "stopRef s1" using stopRef_await [OF _ a1] assms(1) by simp
  show ?thesis
  proof (cases "classifier w")
    case (Inl err)
    with assms(2) a1 have "s' = onCatch (text_of w) s1" by (auto simp: processItem_def)
    with c1 show ?thesis by (simp add: onCatch_def)
  next
    case (Inr r)
    obtain ts2 s2 where a2: "await ts1 (s1\<lparr> saved := saved s1 @ [r] \<rparr>) = (ts2, s2)"
      by (cases "await ts1 (s1\<lparr> saved := saved s1 @ [r] \<rparr>)")
    have c2: "stopRef s2" using stopRef_await [OF _ a2] c1 by simp
    from assms(2) a1 a2 Inr have "s' = onCatch (text_of w) s2 \<or> s' = onSuccess r s2"
      by (auto simp: processItem_def split: sum.splits)
    with c2 show ?thesis by (auto simp: onCatch_def onSuccess_def)
  qed
qed

lemma stop_during_pause_poll:
  assumes "pauseRef s" and "\<not> stopRef s" and "isProcessing s"
  shows "classified (final (loop (w # ws) ([Stop] # ts) s)) = classified s @ [text_of w] \<and>
         length (emitted (loop (w # ws) ([Stop] # ts) s)) = 1 \<and>
         stopRef (final (loop (w # ws) ([Stop] # ts) s))"
proof -
  let ?s1 = "handleStop s"
  have st: "stopRef ?s1" by (simp add: handleStop_def)
  have p: "pausePoll ([Stop] # ts) s = Some (ts, ?s1)"
    using assms st by (cases ts) (simp_all add: operator_def)
  obtain ts2 s2 where q: "processItem w ts ?s1 = (ts2, s2)" by (cases "processItem w ts ?s1")
  obtain ts3 s3 where a: "await ts2 s2 = (ts3, s3)" by (cases "await ts2 s2")
  have s3: "stopRef s3"
    using stopRef_await [OF stopRef_processItem [OF st q] a] .
  have l: "loop (w # ws) ([Stop] # ts) s = \<lparr> ending = Returned, final = s3, emitted = [s2] \<rparr>"
  proof -
    have "loop ws ts3 s3 = \<lparr> ending = Returned, final = s3, emitted = [] \<rparr>"
      using s3 by (rule stop_at_top_of_loop)
    then show ?thesis unfolding loop_step [OF assms(2) p q a] by simp
  qed
  have "classified s3 = classified s2"
    using arg_cong [OF data_await [OF a], of classified] by (simp add: data_fields)
  also have "\<dots> = classified (settle w ?s1)"
    using processItem_fields(4) [OF q] .
  also have "\<dots> = classified s @ [text_of w]"
    by (simp add: settle_fields handleStop_def)
  finally show ?thesis using l s3 by simp
qed

text \<open>
  C5 at a concrete run. The operator pauses while the first item is being classified and
  clicks stop during the first pause poll before the second item. The pause loop sees
  the stop and ends, and the second item is still passed to the classifier and counted:
  the \<open>break\<close> inside the pause loop leaves only that loop.
\<close>

theorem C5_stop_while_paused_dispatches_item:
  "classified (final (handleStart two_items pause_then_stop initial_state)) = [lit ''a'', lit ''b''] \<and>
   current (progress (final (handleStart two_items pause_then_stop initial_state))) = 2 \<and>
   length (saved (final (handleStart two_items pause_then_stop initial_state))) = 2 \<and>
   map stopRef (emitted (handleStart two_items pause_then_stop initial_state)) = [False, True]"
  by (simp add: handleStart_def processQueue_def processItem_def Let_def two_items_def
      pause_then_stop_def sample_ok_def initial_state_def operator_def togglePause_def
      handleStop_def saveRecord_def saveRecord_try_def onSuccess_def MAX_DISPLAY_HISTORY_def)

text \<open>
  C6. \<open>saveRecord\<close> never raises: whatever the table insert does, it returns, and it
  returns \<open>null\<close> when the insert fails. So an item the classifier has answered is
  counted as a success and displayed whatever the store does, and a whole run is the
  same for two batches that differ only in what the store does.
\<close>

theorem C6_store_failure_never_fails_item:
  "(\<forall>e. saveRecord r io \<noteq> Inl e) \<and>
   (saveRecord_try io = Inl err \<longrightarrow> saveRecord r io = Inr None) \<and>
   (classifier w = Inr r \<and> processItem w ts s = (ts', s') \<longrightarrow>
      success (progress s') = success (progress s) + 1 \<and>
      failed (progress s') = failed (progress s) \<and>
      current (progress s') = current (progress s) + 1 \<and>
      displayResults s' = take 100 (r # displayResults s)) \<and>
   (map text_of inputs = map text_of inputs' \<and> map classifier inputs = map classifier inputs'
      \<longrightarrow> handleStart inputs ts s0 = handleStart inputs' ts s0)"
proof (intro conjI impI allI)
  fix e
  show "saveRecord r io \<noteq> Inl e"
    using saveRecord_returns [of r io] by auto
next
  assume "saveRecord_try io = Inl err"
  then show "saveRecord r io = Inr None" by (simp add: saveRecord_def)
next
  assume a: "classifier w = Inr r \<and> processItem w ts s = (ts', s')"
  then have p: "processItem w ts s = (ts', s')" and c: "classifier w = Inr r" by simp_all
  have t: "\<not> throws w" using c by (simp add: throws_def)
  show "success (progress s') = success (progress s) + 1"
    using processItem_fields(1) [OF p] t by (simp add: settle_fields)
  show "failed (progress s') = failed (progress s)"
    using processItem_fields(1) [OF p] t by (simp add: settle_fields)
  show "current (progress s') = current (progress s) + 1"
    using processItem_fields(1) [OF p] by (simp add: settle_fields)
  show "displayResults s' = take 100 (r # displayResults s)"
    using processItem_fields(2) [OF p] c
    by (simp add: settle_fields shown_def MAX_DISPLAY_HISTORY_def)
next
  assume a: "map text_of inputs = map text_of inputs' \<and>
             map classifier inputs = map classifier inputs'"
  then have l: "length inputs = length inputs'" using map_eq_imp_length_eq by blast
  from a have "\<And>s. loop inputs ts s = loop inputs' ts s"
    using loop_store_irrelevant by blast
  then show "handleStart inputs ts s0 = handleStart inputs' ts s0"
    by (simp add: handleStart_def processQueue_def l)
qed

theorem C6_witness:
  "saveRecord_try (store (store_down (sample_ok ''a''))) =
     Inl \<lparr> message = Some (lit ''Failed to fetch''), status = None \<rparr> \<and>
   saveRecord \<lparr> original_text = lit ''a'', corrected_text = lit ''a'', annotations = [] \<rparr>
     (store (store_down (sample_ok ''a''))) = Inr None \<and>
   classifier (store_down (sample_ok ''a'')) =
     Inr \<lparr> original_text = lit ''a'', corrected_text = lit ''a'', annotations = [] \<rparr> \<and>
   success (progress (snd (processItem (store_down (sample_ok ''a'')) [] initial_state))) = 1 \<and>
   failed (progress (snd (processItem (store_down (sample_ok ''a'')) [] initial_state))) = 0 \<and>
   map text_of (map store_down three_items) = map text_of three_items \<and>
   map classifier (map store_down three_items) = map classifier three_items \<and>
   handleStart (map store_down three_items) [] initial_state =
     handleStart three_items [] initial_state"
proof -
  let ?w = "store_down (sample_ok ''a'')"
  let ?r = "\<lparr> original_text = lit ''a'', corrected_text = lit ''a'', annotations = [] \<rparr>"
  let ?e = "\<lparr> message = Some (lit ''Failed to fetch''), status = None \<rparr>"
  have h1: "saveRecord_try (store ?w) = Inl ?e"
    by (simp add: saveRecord_try_def store_down_def)
  have h2: "classifier ?w = Inr ?r"
    by (simp add: store_down_def sample_ok_def)
  have h3: "processItem ?w [] initial_state = ([], snd (processItem ?w [] initial_state))"
    by (simp add: processItem_def Let_def split: sum.splits)
  have h4: "map text_of (map store_down three_items) = map text_of three_items"
    "map classifier (map store_down three_items) = map classifier three_items"
    by (simp_all add: store_down_def)
  have z: "success (progress initial_state) = 0" "failed (progress initial_state) = 0"
    by (simp_all add: initial_state_def)
  from C6_store_failure_never_fails_item
    [of ?r "store ?w" ?e ?w "[]" initial_state "[]"
        "snd (processItem ?w [] initial_state)" "map store_down three_items" three_items
        initial_state]
    h1 h2 h3 h4 z
  show ?thesis by simp
qed

text \<open>
  C7. The cap is 100. At every snapshot of every run, and in its final state,
  \<open>displayResults\<close> has at most 100 entries and holds the results of the items
  processed so far, newest first, cut to the first 100.
\<close>

theorem C7_display_window_bounded:
  "MAX_DISPLAY_HISTORY = 100 \<and>
   (i < length (emitted (handleStart inputs ts s0)) \<longrightarrow>
      length (displayResults (emitted (handleStart inputs ts s0) ! i)) \<le> 100 \<and>
      displayResults (emitted (handleStart inputs ts s0) ! i) =
        take 100 (rev (map shown (take (Suc i) inputs)))) \<and>
   length (displayResults (final (handleStart inputs ts s0))) \<le> 100 \<and>
   displayResults (final (handleStart inputs ts s0)) =
     take 100 (rev (map shown (take (length (emitted (handleStart inputs ts s0))) inputs)))"
proof -
  let ?b = "begun inputs s0"
  let ?r = "loop inputs ts ?b"
  have b: "length (displayResults (data ?b)) \<le> MAX_DISPLAY_HISTORY"
    by (simp add: data_fields begun_fields)
  have snap: "displayResults (emitted ?r ! i) = take 100 (rev (map shown (take (Suc i) inputs)))"
    if "i < length (emitted ?r)" for i
  proof -
    have "displayResults (emitted ?r ! i) = displayResults (data (emitted ?r ! i))"
      by (simp add: data_fields)
    also have "\<dots> = displayResults (fold settle (take (Suc i) inputs) (data ?b))"
      using emitted_nth [OF that] by simp
    also have "\<dots> = take 100 (rev (map shown (take (Suc i) inputs)))"
      using fold_settle_display [OF b]
      by (simp add: data_fields begun_fields MAX_DISPLAY_HISTORY_def)
    finally show ?thesis .
  qed
  have "displayResults (final ?r) = displayResults (data (final ?r))"
    by (simp add: data_fields)
  also have "\<dots> = displayResults (fold settle (take (length (emitted ?r)) inputs) (data ?b))"
    using loop_data [of inputs ts ?b] by simp
  also have "\<dots> = take 100 (rev (map shown (take (length (emitted ?r)) inputs)))"
    using fold_settle_display [OF b]
    by (simp add: data_fields begun_fields MAX_DISPLAY_HISTORY_def)
  finally have fin: "displayResults (final ?r) =
      take 100 (rev (map shown (take (length (emitted ?r)) inputs)))" .
  have fin': "displayResults (final (handleStart inputs ts s0)) = displayResults (final ?r)"
    by (simp add: handleStart_loop split: ending.splits)
  show ?thesis
    using snap fin fin' by (simp add: handleStart_loop MAX_DISPLAY_HISTORY_def)
qed

theorem C7_witness:
  "(1::nat) < length (emitted (handleStart three_items [] initial_state)) \<and>
   displayResults (emitted (handleStart three_items [] initial_state) ! 1) =
     [\<lparr> original_text = lit ''She is happy.'',
        corrected_text = lit ''Error processing this item.'', annotations = [] \<rparr>,
      \<lparr> original_text = lit ''He go school.'', corrected_text = lit ''He go school.'',
        annotations = [] \<rparr>]"
proof -
  have q: "Stop \<notin> set (concat ([] :: tick list))" "even (toggles [])"
    by (simp_all add: toggles_def)
  have h: "(1::nat) < length (emitted (handleStart three_items [] initial_state))"
    using run_length [OF q, of three_items initial_state] by (simp add: three_items_def)
  have e: "take 100 (rev (map shown (take (Suc 1) three_items))) =
     [\<lparr> original_text = lit ''She is happy.'',
        corrected_text = lit ''Error processing this item.'', annotations = [] \<rparr>,
      \<lparr> original_text = lit ''He go school.'', corrected_text = lit ''He go school.'',
        annotations = [] \<rparr>]"
    by (simp add: three_items_def shown_def sample_ok_def sample_fatal_def errorResult_def)
  from C7_display_window_bounded [of 1 three_items "[]" initial_state] h
  show ?thesis unfolding e by simp
qed

text \<open>
  C8. In a run without a stop, pausing does not change the outcome: if the pause clicks
  come in pairs (each pause is resumed) the run returns, and whenever the run returns
  its final counts equal those of the run on the same items in which the operator
  does nothing; every item was passed to the classifier exactly once, in order.
\<close>

theorem C8_pause_resume_same_counts:
  assumes "Stop \<notin> set (concat ts)"
  shows "ending (handleStart inputs [] s0) = Returned \<and>
         (even (toggles ts) \<longrightarrow> ending (handleStart inputs ts s0) = Returned) \<and>
         (ending (handleStart inputs ts s0) = Returned \<longrightarrow>
            progress (final (handleStart inputs ts s0)) =
              progress (final (handleStart inputs [] s0)) \<and>
            classified (final (handleStart inputs ts s0)) =
              classified (final (handleStart inputs [] s0)) \<and>
            classified (final (handleStart inputs ts s0)) = classified s0 @ map text_of inputs)"
proof -
  let ?b = "begun inputs s0"
  have quiet: "Stop \<notin> set (concat ([] :: tick list))" "even (toggles [])" by simp_all
  have r0: "ending (handleStart inputs [] s0) = Returned"
    using run_totals(1) [OF quiet] .
  have data_final: "data (final (handleStart inputs us s0)) =
        (fold settle inputs (data ?b))\<lparr> completed := completed s0 + 1 \<rparr>"
    if ns: "Stop \<notin> set (concat us)" and ret: "ending (handleStart inputs us s0) = Returned"
    for us
  proof -
    have ret': "ending (loop inputs us ?b) = Returned"
      using ret by (simp add: handleStart_loop)
    have fin: "data (final (loop inputs us ?b)) = fold settle inputs (data ?b)"
      using complete_run [OF ns ret'] by simp
    have c: "completed (final (loop inputs us ?b)) = completed s0"
      using arg_cong [OF fin, of completed]
      by (simp add: data_fields fold_settle_fields begun_fields)
    have "data (final (handleStart inputs us s0)) =
          (data (final (loop inputs us ?b)))\<lparr> completed := completed s0 + 1 \<rparr>"
      using ret' c by (simp add: handleStart_loop data_def)
    with fin show ?thesis by simp
  qed
  have same: "progress (final (handleStart inputs ts s0)) =
              progress (final (handleStart inputs [] s0)) \<and>
            classified (final (handleStart inputs ts s0)) =
              classified (final (handleStart inputs [] s0)) \<and>
            classified (final (handleStart inputs ts s0)) = classified s0 @ map text_of inputs"
    if ret: "ending (handleStart inputs ts s0) = Returned"
  proof -
    have e: "data (final (handleStart inputs ts s0)) = data (final (handleStart inputs [] s0))"
      using data_final [OF assms ret] data_final [OF quiet(1) r0] by simp
    have "classified (final (handleStart inputs ts s0)) = classified s0 @ map text_of inputs"
      using arg_cong [OF data_final [OF assms ret], of classified]
      by (simp add: data_fields fold_settle_fields begun_fields)
    then show ?thesis
      using arg_cong [OF e, of progress] arg_cong [OF e, of classified]
      by (simp add: data_fields)
  qed
  show ?thesis
    using r0 same run_totals(1) [OF assms] by blast
qed

theorem C8_witness:
  "Stop \<notin> set (concat pause_then_resume) \<and> even (toggles pause_then_resume) \<and>
   ending (handleStart three_items pause_then_resume initial_state) = Returned \<and>
   progress (final (handleStart three_items pause_then_resume initial_state)) =
     progress (final (handleStart three_items [] initial_state))"
proof -
  have h1: "Stop \<notin> set (concat pause_then_resume)"
    by (simp add: pause_then_resume_def)
  have h2: "even (toggles pause_then_resume)"
    by (simp add: pause_then_resume_def toggles_def)
  from C8_pause_resume_same_counts [OF h1, of three_items initial_state] h1 h2
  show ?thesis by simp
qed

section \<open>The classifier clients\<close>

lemma retry_exhausted:
  "maxRetries \<le> k \<Longrightarrow>
   analyzeText_loop env inp k n ws =
     \<lparr> outcome = Inl (Error ''Max retries exceeded for Gemini API''),
       underlying_calls = n, wait_times = ws \<rparr>"
  by (subst analyzeText_loop.simps) simp

lemma retry_again:
  "k < maxRetries \<Longrightarrow> retryable_failure env inp n \<Longrightarrow>
   analyzeText_loop env inp k n ws =
     analyzeText_loop env inp (k + 1) (n + 1)
       (ws @ [waitTime env (k + 1) (length ws)])"
  by (subst analyzeText_loop.simps) (auto simp: retryable_failure_def split: sum.splits)

lemma retry_settled:
  "k < maxRetries \<Longrightarrow> \<not> retryable_failure env inp n \<Longrightarrow>
   analyzeText_loop env inp k n ws =
     \<lparr> outcome = attempt env inp n, underlying_calls = n + 1, wait_times = ws \<rparr>"
  by (subst analyzeText_loop.simps) (auto simp: retryable_failure_def split: sum.splits)

lemma retry_all_retryable:
  assumes "\<forall>j. k \<le> j \<and> j < maxRetries \<longrightarrow> retryable_failure env inp j"
      and "length ws = k" and "k \<le> maxRetries"
  shows "analyzeText_loop env inp k k ws =
     \<lparr> outcome = Inl (Error ''Max retries exceeded for Gemini API''),
       underlying_calls = maxRetries,
       wait_times = ws @ map (wait_for_retry env) [Suc k..<Suc maxRetries] \<rparr>"
  using assms
proof (induction "maxRetries - k" arbitrary: k ws)
  case 0
  then have "k = maxRetries" by simp
  then show ?case by (simp add: retry_exhausted)
next
  case (Suc d)
  then have lt: "k < maxRetries" by simp
  have r: "retryable_failure env inp k" using Suc.prems(1) lt by simp
  let ?ws = "ws @ [waitTime env (k + 1) (length ws)]"
  have "analyzeText_loop env inp (k + 1) (k + 1) ?ws =
     \<lparr> outcome = Inl (Error ''Max retries exceeded for Gemini API''),
       underlying_calls = maxRetries,
       wait_times = ?ws @ map (wait_for_retry env) [Suc (k + 1)..<Suc maxRetries] \<rparr>"
    using Suc.hyps(2) Suc.prems lt by (intro Suc.hyps(1)) simp_all
  moreover have "[Suc k..<Suc maxRetries] = Suc k # [Suc (k + 1)..<Suc maxRetries]"
    using lt by (simp add: upt_conv_Cons del: upt_Suc)
  ultimately show ?case
    using retry_again [OF lt r, of ws] Suc.prems(2)
    by (simp add: wait_for_retry_def del: upt_Suc)
qed

lemma retry_first_settled:
  assumes "\<forall>j. k \<le> j \<and> j < m \<longrightarrow> retryable_failure env inp j"
      and "\<not> retryable_failure env inp m"
      and "length ws = k" and "k \<le> m" and "m < maxRetries"
  shows "analyzeText_loop env inp k k ws =
     \<lparr> outcome = attempt env inp m, underlying_calls = m + 1,
       wait_times = ws @ map (wait_for_retry env) [Suc k..<Suc m] \<rparr>"
  using assms
proof (induction "m - k" arbitrary: k ws)
  case 0
  then have "k = m" by simp
  with 0 retry_settled [of m env inp m ws] show ?case by simp
next
  case (Suc d)
  then have lt: "k < m" and lt': "k < maxRetries" by simp_all
  have r: "retryable_failure env inp k" using Suc.prems(1) lt by simp
  let ?ws = "ws @ [waitTime env (k + 1) (length ws)]"
  have "analyzeText_loop env inp (k + 1) (k + 1) ?ws =
     \<lparr> outcome = attempt env inp m, underlying_calls = m + 1,
       wait_times = ?ws @ map (wait_for_retry env) [Suc (k + 1)..<Suc m] \<rparr>"
    using Suc.hyps(2) Suc.prems lt by (intro Suc.hyps(1)) simp_all
  moreover have "[Suc k..<Suc m] = Suc k # [Suc (k + 1)..<Suc m]"
    using lt by (simp add: upt_conv_Cons del: upt_Suc)
  ultimately show ?case
    using retry_again [OF lt' r, of ws] Suc.prems(3)
    by (simp add: wait_for_retry_def del: upt_Suc)
qed

lemma retry_calls_bound:
  "k \<le> maxRetries \<Longrightarrow>
   underlying_calls (analyzeText_loop env inp k n ws) \<le> n + (maxRetries - k)"
proof (induction "maxRetries - k" arbitrary: k n ws)
  case 0
  then show ?case by (simp add: retry_exhausted)
next
  case (Suc d)
  then have lt: "k < maxRetries" by simp
  show ?case
  proof (cases "retryable_failure env inp n")
    case True
    have "underlying_calls (analyzeText_loop env inp (k + 1) (n + 1)
            (ws @ [waitTime env (k + 1) (length ws)]))
          \<le> (n + 1) + (maxRetries - (k + 1))"
      using Suc.hyps(2) lt by (intro Suc.hyps(1)) simp_all
    with retry_again [OF lt True, of ws] lt show ?thesis by simp
  next
    case False
    with retry_settled [OF lt False, of ws] lt show ?thesis by simp
  qed
qed

lemma retry_waits_shape:
  "length ws = k \<Longrightarrow> k \<le> maxRetries \<Longrightarrow>
   \<exists>m. k \<le> m \<and> m \<le> maxRetries \<and>
       wait_times (analyzeText_loop env inp k k ws) = ws @ map (wait_for_retry env) [Suc k..<Suc m]"
proof (induction "maxRetries - k" arbitrary: k ws)
  case 0
  then have "wait_times (analyzeText_loop env inp k k ws) =
             ws @ map (wait_for_retry env) [Suc k..<Suc k]"
    by (simp add: retry_exhausted)
  with 0 show ?case by blast
next
  case (Suc d)
  then have lt: "k < maxRetries" by simp
  show ?case
  proof (cases "retryable_failure env inp k")
    case True
    let ?ws = "ws @ [waitTime env (k + 1) (length ws)]"
    have "\<exists>m. k + 1 \<le> m \<and> m \<le> maxRetries \<and>
       wait_times (analyzeText_loop env inp (k + 1) (k + 1) ?ws) =
         ?ws @ map (wait_for_retry env) [Suc (k + 1)..<Suc m]"
      using Suc.hyps(2) Suc.prems lt by (intro Suc.hyps(1)) simp_all
    then obtain m where m: "k + 1 \<le> m" "m \<le> maxRetries"
      "wait_times (analyzeText_loop env inp (k + 1) (k + 1) ?ws) =
         ?ws @ map (wait_for_retry env) [Suc (k + 1)..<Suc m]"
      by blast
    have "[Suc k..<Suc m] = Suc k # [Suc (k + 1)..<Suc m]"
      using m(1) by (simp add: upt_conv_Cons del: upt_Suc)
    then have "wait_times (analyzeText_loop env inp k k ws) =
               ws @ map (wait_for_retry env) [Suc k..<Suc m]"
      using retry_again [OF lt True, of ws] m(3) Suc.prems(1)
      by (simp add: wait_for_retry_def del: upt_Suc)
    moreover have "k \<le> m" using m(1) by simp
    ultimately show ?thesis using m(2) by blast
  next
    case False
    have "wait_times (analyzeText_loop env inp k k ws) =
          ws @ map (wait_for_retry env) [Suc k..<Suc k]"
      using retry_settled [OF lt False, of ws] by simp
    with Suc.prems(2) show ?thesis by blast
  qed
qed

lemma analyzeText_waits:
  "length (wait_times (analyzeText env inp)) \<le> maxRetries \<and>
   wait_times (analyzeText env inp) =
     map (wait_for_retry env) [1..<Suc (length (wait_times (analyzeText env inp)))]"
proof (cases "API_KEY env")
  case False
  then show ?thesis by (simp add: analyzeText_def)
next
  case True
  obtain m where m: "m \<le> maxRetries"
    "wait_times (analyzeText_loop env inp 0 0 []) = [] @ map (wait_for_retry env) [Suc 0..<Suc m]"
    using retry_waits_shape [of "[]" 0 env inp] by auto
  then have "length (wait_times (analyzeText_loop env inp 0 0 [])) = m" by simp
  with m True show ?thesis by (simp add: analyzeText_def del: upt_Suc)
qed

lemma analyzeText_calls_bound: "underlying_calls (analyzeText env inp) \<le> maxRetries"
  using retry_calls_bound [of 0 env inp 0 "[]"] by (simp add: analyzeText_def)

lemma analyzeText_fetch_requests:
  "requests (analyzeText_fetch fenv inp) = (if apiBaseUrl fenv = [] then 0 else 1)"
  by (simp add: analyzeText_fetch_def split: sum.splits)

lemma throttled_retryable: "throttled_failure env inp k \<Longrightarrow> retryable_failure env inp k"
  by (auto simp: throttled_failure_def retryable_failure_def throttled_def isRateLimit_def
      isServerOverload_def split: sum.splits)

lemma settles_not_retryable: "settles env inp k \<Longrightarrow> \<not> retryable_failure env inp k"
  by (auto simp: settles_def retryable_failure_def throttled_def mentions_throttling_def
      isRateLimit_def isServerOverload_def split: sum.splits option.splits)

lemma to_number_int:
  assumes "rounds_faithfully env" and "\<bar>k\<bar> \<le> 2 ^ 53"
  shows "to_number env (of_int k) = of_int k"
  using assms by (simp add: rounds_faithfully_def)

lemma to_number_mono:
  assumes "rounds_faithfully env" and "x \<le> y"
  shows "to_number env x \<le> to_number env y"
  using assms by (simp add: rounds_faithfully_def)

lemma waitTime_bounds:
  assumes rf: "rounds_faithfully env" and n: "n \<le> 5"
      and r: "0 \<le> Math_random env d" "Math_random env d < 1"
  shows "2000 * 2 ^ n \<le> waitTime env n d \<and> waitTime env n d \<le> 2000 * 2 ^ n + 1000"
proof -
  define K :: int where "K = 2000 * 2 ^ n"
  have "(2::int) ^ n \<le> 2 ^ 5" using n by (intro power_increasing) simp_all
  then have K: "0 \<le> K" "K \<le> 64000" by (simp_all add: K_def)
  have K53: "\<bar>K\<bar> \<le> 2 ^ 53" "\<bar>K + 1000\<bar> \<le> 2 ^ 53" using K by simp_all
  have Kr: "(2000 * 2 ^ n :: real) = of_int K" by (simp add: K_def)
  have a: "number_times env baseDelay (2 ^ n) = of_int K"
    using to_number_int [OF rf K53(1)] by (simp add: number_times_def baseDelay_def Kr)
  have z: "to_number env 0 = 0" using to_number_int [OF rf, of 0] by simp
  have t: "to_number env 1000 = 1000" using to_number_int [OF rf, of 1000] by simp
  let ?j = "number_times env (Math_random env d) 1000"
  have j0: "0 \<le> ?j"
    using to_number_mono [OF rf, of 0 "Math_random env d * 1000"] r z
    by (simp add: number_times_def)
  have j1: "?j \<le> 1000"
    using to_number_mono [OF rf, of "Math_random env d * 1000" 1000] r t
    by (simp add: number_times_def)
  have lo: "of_int K \<le> to_number env (of_int K + ?j)"
    using to_number_mono [OF rf, of "of_int K" "of_int K + ?j"] j0
      to_number_int [OF rf K53(1)] by simp
  have "to_number env (of_int K + ?j) \<le> to_number env (of_int (K + 1000))"
    using to_number_mono [OF rf, of "of_int K + ?j" "of_int (K + 1000)"] j1 by simp
  then have hi: "to_number env (of_int K + ?j) \<le> of_int K + 1000"
    using to_number_int [OF rf K53(2)] by simp
  show ?thesis
    using lo hi by (simp add: waitTime_def number_plus_def a Kr)
qed

lemma analyzeText_fetch_cases:
  "apiBaseUrl fenv = [] \<Longrightarrow>
     analyzeText_fetch fenv inp =
       \<lparr> fetch_outcome = Inl (Error ''API URL is missing''), requests = 0 \<rparr>"
  "apiBaseUrl fenv \<noteq> [] \<Longrightarrow> fetch fenv inp = Inl err \<Longrightarrow>
     analyzeText_fetch fenv inp = \<lparr> fetch_outcome = Inl err, requests = 1 \<rparr>"
  "apiBaseUrl fenv \<noteq> [] \<Longrightarrow> fetch fenv inp = Inr response \<Longrightarrow> \<not> ok response \<Longrightarrow>
     analyzeText_fetch fenv inp =
       \<lparr> fetch_outcome = Inl \<lparr> message = Some (failure_message fenv response), status = None \<rparr>,
         requests = 1 \<rparr>"
  "apiBaseUrl fenv \<noteq> [] \<Longrightarrow> fetch fenv inp = Inr response \<Longrightarrow> ok response \<Longrightarrow>
   response_json fenv (body response) = Inl err \<Longrightarrow>
     analyzeText_fetch fenv inp = \<lparr> fetch_outcome = Inl err, requests = 1 \<rparr>"
  by (simp_all add: analyzeText_fetch_def)

text \<open>
  C4, on the client with the retry loop and on the client over \<open>fetch\<close>.

  The client with the retry loop makes no underlying call without an API key and at
  most 5 otherwise. When each of the 5 calls fails with a rate-limit or overload error
  (status 429 or 503) it waits after each and ends with the error "Max retries exceeded
  for Gemini API". When the calls before call \<open>m\<close> fail so and call \<open>m\<close> succeeds,
  or fails with an error that has neither of these statuses nor 429 or 503 in its
  message, that call is the last and its result is the result; so after such an error on
  the first call exactly one underlying call has been made and nothing was waited for.
  The wait after the \<open>n\<close>-th failed call is
  \<open>2000 * 2 ^ n + Math.random() * 1000\<close> computed with Numbers; with faithful
  rounding and \<open>Math.random()\<close> in \<open>[0, 1)\<close> it lies between \<open>2000 * 2 ^ n\<close> and
  \<open>2000 * 2 ^ n + 1000\<close> ms, both ends included.

  The client over \<open>fetch\<close> never retries. Without a base URL it sends no request and
  throws "API URL is missing". Otherwise it sends exactly one request, and it throws
  when the \<open>fetch\<close> rejects, when the response is not ok, and when the response body
  cannot be read as JSON.
\<close>

theorem C4_retry_policy:
  "maxRetries = 5 \<and> baseDelay = 2000 \<and>
   (\<not> API_KEY env \<longrightarrow>
      underlying_calls (analyzeText env inp) = 0 \<and>
      outcome (analyzeText env inp) = Inl (Error ''API Key is missing'')) \<and>
   (API_KEY env \<and> (\<forall>j<5. throttled_failure env inp j) \<longrightarrow>
      underlying_calls (analyzeText env inp) = 5 \<and>
      outcome (analyzeText env inp) = Inl (Error ''Max retries exceeded for Gemini API'') \<and>
      length (wait_times (analyzeText env inp)) = 5) \<and>
   (API_KEY env \<and> m < 5 \<and> (\<forall>j<m. throttled_failure env inp j) \<and> settles env inp m \<longrightarrow>
      underlying_calls (analyzeText env inp) = m + 1 \<and>
      outcome (analyzeText env inp) = attempt env inp m \<and>
      length (wait_times (analyzeText env inp)) = m) \<and>
   (API_KEY env \<and> attempt env inp 0 = Inl err \<and> \<not> throttled err \<and>
    \<not> mentions_throttling err \<longrightarrow>
      underlying_calls (analyzeText env inp) = 1 \<and>
      outcome (analyzeText env inp) = Inl err \<and>
      wait_times (analyzeText env inp) = []) \<and>
   underlying_calls (analyzeText env inp) \<le> 5 \<and>
   (i < length (wait_times (analyzeText env inp)) \<longrightarrow>
      wait_times (analyzeText env inp) ! i =
        number_plus env (number_times env 2000 (2 ^ (i + 1)))
          (number_times env (Math_random env i) 1000) \<and>
      (rounds_faithfully env \<and> 0 \<le> Math_random env i \<and> Math_random env i < 1 \<longrightarrow>
         2000 * 2 ^ (i + 1) \<le> wait_times (analyzeText env inp) ! i \<and>
         wait_times (analyzeText env inp) ! i \<le> 2000 * 2 ^ (i + 1) + 1000)) \<and>
   (apiBaseUrl fenv = [] \<longrightarrow>
      requests (analyzeText_fetch fenv inp) = 0 \<and>
      fetch_outcome (analyzeText_fetch fenv inp) = Inl (Error ''API URL is missing'')) \<and>
   (apiBaseUrl fenv \<noteq> [] \<longrightarrow>
      requests (analyzeText_fetch fenv inp) = 1 \<and>
      (fetch fenv inp = Inl ferr \<longrightarrow>
         fetch_outcome (analyzeText_fetch fenv inp) = Inl ferr) \<and>
      (fetch fenv inp = Inr response \<and> \<not> ok response \<longrightarrow>
         fetch_outcome (analyzeText_fetch fenv inp) =
           Inl \<lparr> message = Some (failure_message fenv response), status = None \<rparr>) \<and>
      (fetch fenv inp = Inr response \<and> ok response \<and>
       response_json fenv (body response) = Inl ferr \<longrightarrow>
         fetch_outcome (analyzeText_fetch fenv inp) = Inl ferr))"
proof -
  have p0: "underlying_calls (analyzeText env inp) = 0 \<and>
      outcome (analyzeText env inp) = Inl (Error ''API Key is missing'')"
    if "\<not> API_KEY env"
    using that by (simp add: analyzeText_def)
  have p1: "underlying_calls (analyzeText env inp) = 5 \<and>
      outcome (analyzeText env inp) = Inl (Error ''Max retries exceeded for Gemini API'') \<and>
      length (wait_times (analyzeText env inp)) = 5"
    if h: "API_KEY env \<and> (\<forall>j<5. throttled_failure env inp j)"
  proof -
    have "\<forall>j. 0 \<le> j \<and> j < maxRetries \<longrightarrow> retryable_failure env inp j"
      using h throttled_retryable by (simp add: maxRetries_def)
    from retry_all_retryable [OF this, of "[]"] h show ?thesis
      by (simp add: analyzeText_def maxRetries_def)
  qed
  have p2: "underlying_calls (analyzeText env inp) = m + 1 \<and>
      outcome (analyzeText env inp) = attempt env inp m \<and>
      length (wait_times (analyzeText env inp)) = m"
    if h: "API_KEY env \<and> m < 5 \<and> (\<forall>j<m. throttled_failure env inp j) \<and> settles env inp m"
  proof -
    have a: "\<forall>j. 0 \<le> j \<and> j < m \<longrightarrow> retryable_failure env inp j"
      using h throttled_retryable by simp
    have b: "\<not> retryable_failure env inp m" using h settles_not_retryable by simp
    from retry_first_settled [OF a b, of "[]"] h show ?thesis
      by (simp add: analyzeText_def maxRetries_def)
  qed
  have p3: "underlying_calls (analyzeText env inp) = 1 \<and>
      outcome (analyzeText env inp) = Inl err \<and> wait_times (analyzeText env inp) = []"
    if h: "API_KEY env \<and> attempt env inp 0 = Inl err \<and> \<not> throttled err \<and>
        \<not> mentions_throttling err"
  proof -
    have "settles env inp 0" using h by (simp add: settles_def)
    then have "\<not> retryable_failure env inp 0" by (rule settles_not_retryable)
    with h retry_settled [of 0 env inp 0 "[]"] show ?thesis
      by (simp add: analyzeText_def maxRetries_def)
  qed
  have p4: "underlying_calls (analyzeText env inp) \<le> 5"
    using analyzeText_calls_bound [of env inp] by (simp add: maxRetries_def)
  have p5: "wait_times (analyzeText env inp) ! i = waitTime env (i + 1) i \<and> i < 5"
    if "i < length (wait_times (analyzeText env inp))"
  proof -
    let ?n = "length (wait_times (analyzeText env inp))"
    have "wait_times (analyzeText env inp) ! i = map (wait_for_retry env) [1..<Suc ?n] ! i"
      using analyzeText_waits [of env inp] by simp
    also have "\<dots> = wait_for_retry env (Suc i)"
      using that by (simp del: upt_Suc)
    finally have "wait_times (analyzeText env inp) ! i = waitTime env (i + 1) i"
      by (simp add: wait_for_retry_def)
    moreover have "i < 5"
      using that analyzeText_waits [of env inp] by (simp add: maxRetries_def)
    ultimately show ?thesis by simp
  qed
  have p5a: "wait_times (analyzeText env inp) ! i =
        number_plus env (number_times env 2000 (2 ^ (i + 1)))
          (number_times env (Math_random env i) 1000)"
    if "i < length (wait_times (analyzeText env inp))"
    using p5 [OF that] by (simp add: waitTime_def baseDelay_def)
  have p5b: "2000 * 2 ^ (i + 1) \<le> wait_times (analyzeText env inp) ! i \<and>
         wait_times (analyzeText env inp) ! i \<le> 2000 * 2 ^ (i + 1) + 1000"
    if "i < length (wait_times (analyzeText env inp))"
      and "rounds_faithfully env \<and> 0 \<le> Math_random env i \<and> Math_random env i < 1"
    using p5 [OF that(1)] that(2) waitTime_bounds [of env "i + 1" i] by simp
  have p6: "requests (analyzeText_fetch fenv inp) = 0 \<and>
      fetch_outcome (analyzeText_fetch fenv inp) = Inl (Error ''API URL is missing'')"
    if "apiBaseUrl fenv = []"
    using analyzeText_fetch_cases(1) [OF that] by simp
  have p7: "requests (analyzeText_fetch fenv inp) = 1" if "apiBaseUrl fenv \<noteq> []"
    using that by (simp add: analyzeText_fetch_requests)
  have p8: "fetch_outcome (analyzeText_fetch fenv inp) = Inl ferr"
    if "apiBaseUrl fenv \<noteq> []" "fetch fenv inp = Inl ferr"
    using analyzeText_fetch_cases(2) [OF that] by simp
  have p9: "fetch_outcome (analyzeText_fetch fenv inp) =
           Inl \<lparr> message = Some (failure_message fenv response), status = None \<rparr>"
    if "apiBaseUrl fenv \<noteq> []" "fetch fenv inp = Inr response \<and> \<not> ok response"
    using analyzeText_fetch_cases(3) [OF that(1), of inp response] that(2) by simp
  have p10: "fetch_outcome (analyzeText_fetch fenv inp) = Inl ferr"
    if "apiBaseUrl fenv \<noteq> []" "fetch fenv inp = Inr response \<and> ok response \<and>
       response_json fenv (body response) = Inl ferr"
    using analyzeText_fetch_cases(4) [OF that(1), of inp response ferr] that(2) by simp
  have sdk: "maxRetries = 5 \<and> baseDelay = 2000"
    by (simp add: maxRetries_def baseDelay_def)
  show ?thesis
    using sdk p0 p1 p2 p3 p4 p5a p5b p6 p7 p8 p9 p10 by blast
qed

theorem C4_witness:
  "underlying_calls (analyzeText no_api_key (lit ''He go school.'')) = 0 \<and>
   underlying_calls (analyzeText always_overloaded (lit ''He go school.'')) = 5 \<and>
   outcome (analyzeText always_overloaded (lit ''He go school.'')) =
     Inl (Error ''Max retries exceeded for Gemini API'') \<and>
   wait_times (analyzeText always_overloaded (lit ''He go school.'')) ! 0 = 4500 \<and>
   wait_times (analyzeText always_overloaded (lit ''He go school.'')) ! 4 = 64500 \<and>
   64000 \<le> wait_times (analyzeText always_overloaded (lit ''He go school.'')) ! 4 \<and>
   wait_times (analyzeText always_overloaded (lit ''He go school.'')) ! 4 \<le> 65000 \<and>
   underlying_calls (analyzeText recovers_after_two (lit ''He go school.'')) = 3 \<and>
   length (wait_times (analyzeText recovers_after_two (lit ''He go school.''))) = 2 \<and>
   underlying_calls (analyzeText misconfigured (lit ''He go school.'')) = 1 \<and>
   wait_times (analyzeText misconfigured (lit ''He go school.'')) = [] \<and>
   requests (analyzeText_fetch no_backend (lit ''He go school.'')) = 0 \<and>
   requests (analyzeText_fetch overloaded_backend (lit ''He go school.'')) = 1 \<and>
   fetch_outcome (analyzeText_fetch overloaded_backend (lit ''He go school.'')) =
     Inl \<lparr> message = Some (lit ''429 Too Many Requests''), status = None \<rparr> \<and>
   fetch_outcome (analyzeText_fetch unreachable_backend (lit ''He go school.'')) =
     Inl (Error ''Failed to fetch'') \<and>
   fetch_outcome (analyzeText_fetch garbled_backend (lit ''He go school.'')) =
     Inl (Error ''Unexpected token'')"
proof -
  let ?t = "lit ''He go school.''"
  let ?e403 = "\<lparr> message = Some (lit ''Permission denied''), status = Some 403 \<rparr>"
  let ?r429 = "\<lparr> ok = False, http_status = 429, body = lit ''429 Too Many Requests'' \<rparr>"
  let ?r200 = "\<lparr> ok = True, http_status = 200, body = lit ''<html>'' \<rparr>"
  have k0: "\<not> API_KEY no_api_key"
    by (simp add: no_api_key_def)
  have a1: "API_KEY always_overloaded \<and> (\<forall>j<5. throttled_failure always_overloaded ?t j)"
    by (simp add: always_overloaded_def throttled_failure_def attempt_def throttled_def)
  have a2: "rounds_faithfully always_overloaded \<and> 0 \<le> Math_random always_overloaded 4 \<and>
      Math_random always_overloaded 4 < 1"
    by (simp add: always_overloaded_def rounds_faithfully_def)
  have b1: "API_KEY recovers_after_two \<and> (2::nat) < 5 \<and>
      (\<forall>j<2. throttled_failure recovers_after_two ?t j) \<and> settles recovers_after_two ?t 2"
    by (simp add: recovers_after_two_def throttled_failure_def settles_def attempt_def
        throttled_def lit_def)
  have c1: "API_KEY misconfigured \<and> attempt misconfigured ?t 0 = Inl ?e403 \<and>
      \<not> throttled ?e403 \<and> \<not> mentions_throttling ?e403"
    by (simp add: misconfigured_def attempt_def throttled_def mentions_throttling_def lit_def)
  have d0: "apiBaseUrl no_backend = []"
    by (simp add: no_backend_def)
  have d1: "apiBaseUrl overloaded_backend \<noteq> []" "apiBaseUrl unreachable_backend \<noteq> []"
    "apiBaseUrl garbled_backend \<noteq> []"
    by (simp_all add: overloaded_backend_def unreachable_backend_def garbled_backend_def lit_def)
  have d2: "fetch overloaded_backend ?t = Inr ?r429 \<and> \<not> ok ?r429"
    by (simp add: overloaded_backend_def)
  have d3: "fetch unreachable_backend ?t = Inl (Error ''Failed to fetch'')"
    by (simp add: unreachable_backend_def)
  have d4: "fetch garbled_backend ?t = Inr ?r200 \<and> ok ?r200 \<and>
      response_json garbled_backend (body ?r200) = Inl (Error ''Unexpected token'')"
    by (simp add: garbled_backend_def overloaded_backend_def)
  have m: "failure_message overloaded_backend ?r429 = lit ''429 Too Many Requests''"
    by (simp add: failure_message_def overloaded_backend_def lit_def)
  have r: "Math_random always_overloaded i = 1 / 2" "to_number always_overloaded x = x" for i x
    by (simp_all add: always_overloaded_def)
  let ?nr = "\<lparr> ok = False, http_status = 429, body = lit ''429 Too Many Requests'' \<rparr>"
  note K = C4_retry_policy [where env = no_api_key and inp = ?t and m = 0 and err = ?e403
      and i = 0 and fenv = no_backend and ferr = ?e403 and response = ?r429]
  note A0 = C4_retry_policy [where env = always_overloaded and inp = ?t and m = 0
      and err = ?e403 and i = 0 and fenv = overloaded_backend and ferr = ?e403
      and response = ?r429]
  note A4 = C4_retry_policy [where env = always_overloaded and inp = ?t and m = 0
      and err = ?e403 and i = 4 and fenv = unreachable_backend
      and ferr = "Error ''Failed to fetch''" and response = ?r429]
  note B = C4_retry_policy [where env = recovers_after_two and inp = ?t and m = 2
      and err = ?e403 and i = 0 and fenv = garbled_backend
      and ferr = "Error ''Unexpected token''" and response = ?r200]
  note C = C4_retry_policy [where env = misconfigured and inp = ?t and m = 0 and err = ?e403
      and i = 0 and fenv = no_backend and ferr = ?e403 and response = ?r429]
  have k: "underlying_calls (analyzeText no_api_key ?t) = 0"
    "requests (analyzeText_fetch no_backend ?t) = 0"
    using K k0 d0 by simp_all
  have w: "underlying_calls (analyzeText always_overloaded ?t) = 5"
    "outcome (analyzeText always_overloaded ?t) =
       Inl (Error ''Max retries exceeded for Gemini API'')"
    "length (wait_times (analyzeText always_overloaded ?t)) = 5"
    using A0 a1 by simp_all
  have w0: "wait_times (analyzeText always_overloaded ?t) ! 0 = 4500"
    using A0 w(3) by (simp add: r number_plus_def number_times_def)
  have w4: "wait_times (analyzeText always_overloaded ?t) ! 4 = 64500"
    using A4 w(3) by (simp add: r number_plus_def number_times_def)
  have i4: "4 < length (wait_times (analyzeText always_overloaded ?t))"
    using w(3) by simp
  have "2000 * 2 ^ (4 + 1) \<le> wait_times (analyzeText always_overloaded ?t) ! 4 \<and>
      wait_times (analyzeText always_overloaded ?t) ! 4 \<le> 2000 * 2 ^ (4 + 1) + 1000"
    using A4 i4 a2 by blast
  then have w5: "64000 \<le> wait_times (analyzeText always_overloaded ?t) ! 4 \<and>
      wait_times (analyzeText always_overloaded ?t) ! 4 \<le> 65000"
    by simp
  have x: "underlying_calls (analyzeText recovers_after_two ?t) = 3"
    "length (wait_times (analyzeText recovers_after_two ?t)) = 2"
    using B b1 by simp_all
  have y: "underlying_calls (analyzeText misconfigured ?t) = 1"
    "wait_times (analyzeText misconfigured ?t) = []"
    using C c1 by simp_all
  have z1: "requests (analyzeText_fetch overloaded_backend ?t) = 1"
    "fetch_outcome (analyzeText_fetch overloaded_backend ?t) =
       Inl \<lparr> message = Some (lit ''429 Too Many Requests''), status = None \<rparr>"
    using A0 d1(1) d2 m by simp_all
  have z2: "fetch_outcome (analyzeText_fetch unreachable_backend ?t) =
       Inl (Error ''Failed to fetch'')"
    using A4 d1(2) d3 by simp
  have z3: "fetch_outcome (analyzeText_fetch garbled_backend ?t) = Inl (Error ''Unexpected token'')"
    using B d1(3) d4 by simp
  show ?thesis using k w w0 w4 w5 x y z1 z2 z3 by simp
qed

text \<open>
  Two runs against C4 as it was stated. The client over \<open>fetch\<close> on a rate-limited
  backend (HTTP 429) fails after a single request. The client with the retry loop, on a
  bad request (status 400) whose message happens to contain the digits 429, calls the
  service 5 times and reports "Max retries exceeded for Gemini API" instead of the
  error.
\<close>

theorem C4_counterexample:
  "http_status \<lparr> ok = False, http_status = 429, body = lit ''429 Too Many Requests'' \<rparr> = 429 \<and>
   fetch overloaded_backend (lit ''He go school.'') =
     Inr \<lparr> ok = False, http_status = 429, body = lit ''429 Too Many Requests'' \<rparr> \<and>
   fetch_outcome (analyzeText_fetch overloaded_backend (lit ''He go school.'')) =
     Inl \<lparr> message = Some (lit ''429 Too Many Requests''), status = None \<rparr> \<and>
   requests (analyzeText_fetch overloaded_backend (lit ''He go school.'')) = 1 \<and>
   attempt misleading_bad_request (lit ''He go school.'') 0 =
     Inl \<lparr> message = Some (lit ''invalid id 4290''), status = Some 400 \<rparr> \<and>
   underlying_calls (analyzeText misleading_bad_request (lit ''He go school.'')) = 5 \<and>
   outcome (analyzeText misleading_bad_request (lit ''He go school.'')) =
     Inl (Error ''Max retries exceeded for Gemini API'')"
proof -
  let ?t = "lit ''He go school.''"
  have f: "fetch overloaded_backend ?t =
        Inr \<lparr> ok = False, http_status = 429, body = lit ''429 Too Many Requests'' \<rparr> \<and>
      fetch_outcome (analyzeText_fetch overloaded_backend ?t) =
        Inl \<lparr> message = Some (lit ''429 Too Many Requests''), status = None \<rparr> \<and>
      requests (analyzeText_fetch overloaded_backend ?t) = 1"
    by (simp add: analyzeText_fetch_def overloaded_backend_def failure_message_def lit_def)
  have a: "attempt misleading_bad_request ?t j =
      Inl \<lparr> message = Some (lit ''invalid id 4290''), status = Some 400 \<rparr>" for j
    by (simp add: attempt_def misleading_bad_request_def)
  have "isRateLimit \<lparr> message = Some (lit ''invalid id 4290''), status = Some 400 \<rparr>"
    by (simp add: isRateLimit_def lit_def)
  then have "retryable_failure misleading_bad_request ?t j" for j
    unfolding retryable_failure_def a by simp
  then have "\<forall>j. 0 \<le> j \<and> j < maxRetries \<longrightarrow> retryable_failure misleading_bad_request ?t j"
    by simp
  from retry_all_retryable [OF this, of "[]"]
  have s: "underlying_calls (analyzeText misleading_bad_request ?t) = 5 \<and>
      outcome (analyzeText misleading_bad_request ?t) =
        Inl (Error ''Max retries exceeded for Gemini API'')"
    by (simp add: analyzeText_def maxRetries_def misleading_bad_request_def)
  show ?thesis using f a [of 0] s by simp
qed

end
